theory Spec2Isabelle
  imports Main "HOL-Library.Word"
begin

section \<open>Byte slices, slots and patterns\<close>

text \<open>
  A Go byte slice is either \<^verbatim>\<open>nil\<close> or a (possibly empty) sequence of bytes.  The
  two are different values (\<^verbatim>\<open>comp != nil\<close> tells them apart) although \<^verbatim>\<open>len\<close>
  and \<^verbatim>\<open>bytes.Equal\<close> do not distinguish them.  A slot of a pattern is such a slice:
  \<open>None\<close> is \<^verbatim>\<open>nil\<close>, \<open>Some bs\<close> is a non-nil slice holding \<open>bs\<close>.
\<close>

type_synonym byte = "8 word"
type_synonym bytes = "byte list"
type_synonym slot = "bytes option"
type_synonym Pattern = "slot list"

datatype error =
    PanicPatternLength
  | PanicIndexOutOfRange
  | PanicNilDereference
  | PanicInvalidPosition
  | ErrInvalidURIComponent string
  | ErrWildcardInMiddle
  | ErrExpiryPathTooLong
  | ErrInvalidTimeComponent nat nat
  | ErrBackend

text \<open>The bytes held by a slice; \<^verbatim>\<open>len(s)\<close> is the length of this list.\<close>

fun slot_bytes :: "slot \<Rightarrow> bytes" where
  "slot_bytes None = []"
| "slot_bytes (Some bs) = bs"

definition slot_len :: "slot \<Rightarrow> nat" where
  "slot_len s = length (slot_bytes s)"

text \<open>\<^verbatim>\<open>bytes.Equal(a, b)\<close>: same length and same bytes; a nil argument is an empty slice.\<close>

definition bytes_Equal :: "slot \<Rightarrow> slot \<Rightarrow> bool" where
  "bytes_Equal a b = (slot_bytes a = slot_bytes b)"

text \<open>\<^verbatim>\<open>q[i]\<close>: a run-time panic when the index is out of range.\<close>

definition index :: "'a list \<Rightarrow> nat \<Rightarrow> error + 'a" where
  "index xs i = (if i < length xs then Inr (xs ! i) else Inl PanicIndexOutOfRange)"

subsection \<open>Pattern.Equals\<close>

text \<open>The loop \<^verbatim>\<open>for i, comp := range p\<close> of \<^verbatim>\<open>Equals\<close>, from index \<open>i\<close> on.\<close>

fun Equals_loop :: "nat \<Rightarrow> Pattern \<Rightarrow> Pattern \<Rightarrow> error + bool" where
  "Equals_loop i [] q = Inr True"
| "Equals_loop i (c # rest) q =
     (case index q i of
        Inl e \<Rightarrow> Inl e
      | Inr qi \<Rightarrow> if \<not> bytes_Equal c qi then Inr False else Equals_loop (Suc i) rest q)"

definition Equals :: "Pattern \<Rightarrow> Pattern \<Rightarrow> error + bool" where
  "Equals p q = (if length p \<noteq> length q then Inr False else Equals_loop 0 p q)"

subsection \<open>Pattern.Matches\<close>

text \<open>
  The loop of \<^verbatim>\<open>Matches\<close>.  The condition is
  \<^verbatim>\<open>len(comp) != 0 && !bytes.Equal(comp, q[i])\<close>; \<^verbatim>\<open>q[i]\<close> is only evaluated when the
  first conjunct holds.
\<close>

fun Matches_loop :: "nat \<Rightarrow> Pattern \<Rightarrow> Pattern \<Rightarrow> error + bool" where
  "Matches_loop i [] q = Inr True"
| "Matches_loop i (c # rest) q =
     (if slot_len c \<noteq> 0 then
        (case index q i of
           Inl e \<Rightarrow> Inl e
         | Inr qi \<Rightarrow> if \<not> bytes_Equal c qi then Inr False else Matches_loop (Suc i) rest q)
      else Matches_loop (Suc i) rest q)"

definition Matches :: "Pattern \<Rightarrow> Pattern \<Rightarrow> error + bool" where
  "Matches p q = (if length p \<noteq> length q then Inl PanicPatternLength else Matches_loop 0 p q)"

subsection \<open>Pattern.ToAttrs and Pattern.ToAttrsWithReference\<close>

text \<open>
  A WKD-IBE attribute list is a Go map from attribute indices to pointers to big
  integers.  The hash \<^verbatim>\<open>cryptutils.HashToZp\<close> belongs to the pairing library and is a
  parameter \<open>H\<close> here; \<open>'z\<close> is the type of its values.  A pointer is \<open>None\<close> when nil.
  Attribute indices are modelled as natural numbers (the conversion
  \<^verbatim>\<open>wkdibe.AttributeIndex(i)\<close> is taken to be exact).
\<close>

type_synonym 'z AttributeList = "nat \<Rightarrow> 'z option option"

text \<open>\<^verbatim>\<open>m[k]\<close> on a Go map: the zero value, a nil pointer, when the key is absent.\<close>

definition map_lookup :: "'z AttributeList \<Rightarrow> nat \<Rightarrow> 'z option" where
  "map_lookup m k = (case m k of None \<Rightarrow> None | Some v \<Rightarrow> v)"

fun ToAttrs_loop :: "(bytes \<Rightarrow> 'z) \<Rightarrow> nat \<Rightarrow> Pattern \<Rightarrow> 'z AttributeList \<Rightarrow> 'z AttributeList" where
  "ToAttrs_loop H i [] attrs = attrs"
| "ToAttrs_loop H i (c # rest) attrs =
     ToAttrs_loop H (Suc i) rest
       (if slot_len c \<noteq> 0 then attrs(i \<mapsto> Some (H (slot_bytes c))) else attrs)"

definition ToAttrs :: "(bytes \<Rightarrow> 'z) \<Rightarrow> Pattern \<Rightarrow> 'z AttributeList" where
  "ToAttrs H p = ToAttrs_loop H 0 p Map.empty"

text \<open>
  The loop of \<^verbatim>\<open>ToAttrsWithReference\<close>; the state is the attribute list built so far
  and the flag \<^verbatim>\<open>equal\<close>.  Both branches read \<^verbatim>\<open>q[i]\<close>.
\<close>

fun ToAttrsWithReference_loop ::
  "(bytes \<Rightarrow> 'z) \<Rightarrow> nat \<Rightarrow> Pattern \<Rightarrow> Pattern \<Rightarrow> 'z AttributeList \<Rightarrow>
   'z AttributeList \<times> bool \<Rightarrow> error + 'z AttributeList \<times> bool" where
  "ToAttrsWithReference_loop H i [] q qAttrs st = Inr st"
| "ToAttrsWithReference_loop H i (c # rest) q qAttrs (attrs, equal) =
     (case index q i of
        Inl e \<Rightarrow> Inl e
      | Inr qi \<Rightarrow>
          if slot_len c \<noteq> 0 then
            if bytes_Equal c qi
            then ToAttrsWithReference_loop H (Suc i) rest q qAttrs
                   (attrs(i \<mapsto> map_lookup qAttrs i), equal)
            else ToAttrsWithReference_loop H (Suc i) rest q qAttrs
                   (attrs(i \<mapsto> Some (H (slot_bytes c))), False)
          else if slot_len qi \<noteq> 0
            then ToAttrsWithReference_loop H (Suc i) rest q qAttrs (attrs, False)
            else ToAttrsWithReference_loop H (Suc i) rest q qAttrs (attrs, equal))"

definition ToAttrsWithReference ::
  "(bytes \<Rightarrow> 'z) \<Rightarrow> Pattern \<Rightarrow> Pattern \<Rightarrow> 'z AttributeList \<Rightarrow>
   error + 'z AttributeList \<times> bool" where
  "ToAttrsWithReference H p q qAttrs =
     ToAttrsWithReference_loop H 0 p q qAttrs (Map.empty, True)"

text \<open>
  Agreement of two patterns as the specification words it for the flag of
  \<^verbatim>\<open>ToAttrsWithReference\<close>: the same slots are free (nil), and every slot is
  byte-equal.
\<close>

definition spec_agree :: "Pattern \<Rightarrow> Pattern \<Rightarrow> bool" where
  "spec_agree p q = list_all2 (\<lambda>a b. (a = None) = (b = None) \<and> bytes_Equal a b) p q"

section \<open>URI paths\<close>

text \<open>
  A URI component is a byte slice: the position byte, then the name.  A free component
  (\<^verbatim>\<open>+\<close>) is the nil slice.  Go strings are byte strings; \<open>of_char\<close> gives the byte
  of a character.
\<close>

type_synonym URIComponent = slot
type_synonym URIPath = "URIComponent list"

definition NewURIComponent :: "string \<Rightarrow> byte \<Rightarrow> URIComponent" where
  "NewURIComponent name position = Some (position # map of_char name)"

definition EndOfURISymbol :: char where
  "EndOfURISymbol = CHR ''$''"

definition ValidateURIComponent :: "string \<Rightarrow> bool" where
  "ValidateURIComponent uri =
     (if length uri = 0 \<or> (length uri = 1 \<and> uri ! 0 = EndOfURISymbol) then False else True)"

text \<open>
  The loop of \<^verbatim>\<open>ParseURIFromPath\<close> over the names from index \<open>i\<close> on; \<open>n\<close> is
  \<^verbatim>\<open>len(uriPath)\<close>, the state is \<^verbatim>\<open>components\<close> and \<^verbatim>\<open>prefix\<close>.  The conversion
  \<^verbatim>\<open>URIComponentPosition(i)\<close> to \<^verbatim>\<open>uint8\<close> keeps the low byte of the index.
\<close>

fun ParseURIFromPath_loop ::
  "nat \<Rightarrow> nat \<Rightarrow> string list \<Rightarrow> URIPath \<times> bool \<Rightarrow> error + URIPath \<times> bool" where
  "ParseURIFromPath_loop n i [] st = Inr st"
| "ParseURIFromPath_loop n i (name # rest) (components, prefix) =
     (if \<not> ValidateURIComponent name then Inl (ErrInvalidURIComponent name)
      else if name = ''*'' then
        (if int i = int n - 1
         then ParseURIFromPath_loop n (Suc i) rest (components, True)
         else Inl ErrWildcardInMiddle)
      else if name = ''+'' then
        ParseURIFromPath_loop n (Suc i) rest (components @ [None], prefix)
      else
        ParseURIFromPath_loop n (Suc i) rest
          (components @ [NewURIComponent name (of_nat i)], prefix))"

definition ParseURIFromPath :: "string list \<Rightarrow> error + URIPath" where
  "ParseURIFromPath uriPath =
     (case ParseURIFromPath_loop (length uriPath) 0 uriPath ([], False) of
        Inl e \<Rightarrow> Inl e
      | Inr (components, prefix) \<Rightarrow>
          if \<not> prefix
          then Inr (components @ [NewURIComponent [EndOfURISymbol] (of_nat (length uriPath))])
          else Inr components)"

text \<open>\<^verbatim>\<open>strings.Split(s, "/")\<close>: the substrings between the separators, empty ones included.\<close>

fun Split :: "string \<Rightarrow> char \<Rightarrow> string list" where
  "Split [] sep = [[]]"
| "Split (c # cs) sep =
     (if c = sep then [] # Split cs sep
      else (case Split cs sep of [] \<Rightarrow> [[c]] | w # ws \<Rightarrow> (c # w) # ws))"

definition ParseURI :: "string \<Rightarrow> error + URIPath" where
  "ParseURI uri =
     ParseURIFromPath (filter (\<lambda>rawComponent. rawComponent \<noteq> []) (Split uri CHR ''/''))"

text \<open>
  The pieces of the statement about \<^verbatim>\<open>ParseURI\<close>: the segments left after splitting
  and dropping the empty ones (\<^verbatim>\<open>filteredComponents\<close> in the source), the errors that
  report an invalid URI, the segments that become components (all of them but a final
  \<^verbatim>\<open>*\<close>), and the component made of the segment at an index.
\<close>

definition filteredComponents :: "string \<Rightarrow> string list" where
  "filteredComponents uri = filter (\<lambda>rawComponent. rawComponent \<noteq> []) (Split uri CHR ''/'')"

fun invalid_uri :: "error \<Rightarrow> bool" where
  "invalid_uri (ErrInvalidURIComponent name) = True"
| "invalid_uri ErrWildcardInMiddle = True"
| "invalid_uri e = False"

definition ends_in_star :: "string list \<Rightarrow> bool" where
  "ends_in_star segs = (segs \<noteq> [] \<and> last segs = ''*'')"

definition uri_body :: "string list \<Rightarrow> string list" where
  "uri_body segs = (if ends_in_star segs then butlast segs else segs)"

definition uri_component_of :: "nat \<times> string \<Rightarrow> URIComponent" where
  "uri_component_of = (\<lambda>(i, s). if s = ''+'' then None else NewURIComponent s (of_nat i))"

text \<open>
  \<^verbatim>\<open>copy(dst, src)\<close> and slice assignment \<^verbatim>\<open>into[i] = v\<close>; the latter panics out of
  range.
\<close>

definition store :: "'a list \<Rightarrow> nat \<Rightarrow> 'a \<Rightarrow> error + 'a list" where
  "store xs i v = (if i < length xs then Inr (xs[i := v]) else Inl PanicIndexOutOfRange)"

text \<open>\<^verbatim>\<open>for i, component := range up { into[i] = component }\<close>, from index \<open>i\<close> on.\<close>

fun store_all :: "nat \<Rightarrow> slot list \<Rightarrow> Pattern \<Rightarrow> error + Pattern" where
  "store_all i [] into = Inr into"
| "store_all i (component # rest) into =
     (case store into i component of
        Inl e \<Rightarrow> Inl e
      | Inr into' \<Rightarrow> store_all (Suc i) rest into')"

text \<open>
  \<^verbatim>\<open>for j := len(up); j != len(into); j++ { into[j] = nil }\<close>, with \<open>k\<close> the number of
  slots from \<open>j\<close> to the end.  (Started beyond the end the loop's first assignment
  would be out of range; the loop before it has panicked by then.)
\<close>

fun clear_from :: "nat \<Rightarrow> nat \<Rightarrow> Pattern \<Rightarrow> Pattern" where
  "clear_from j 0 into = into"
| "clear_from j (Suc k) into = clear_from (Suc j) k (into[j := None])"

definition EncodeURIPathInto :: "URIPath \<Rightarrow> Pattern \<Rightarrow> error + Pattern" where
  "EncodeURIPathInto up into =
     (case store_all 0 up into of
        Inl e \<Rightarrow> Inl e
      | Inr into' \<Rightarrow>
          if length up \<le> length into'
          then Inr (clear_from (length up) (length into' - length up) into')
          else Inl PanicIndexOutOfRange)"

text \<open>
  \<^verbatim>\<open>for j = len(from) - 1; j != -1; j-- { if from[j] != nil { break } }\<close>: the result
  is \<open>j + 1\<close>, the number of slots up to the last non-nil one.
\<close>

fun last_non_nil :: "Pattern \<Rightarrow> nat \<Rightarrow> nat" where
  "last_non_nil from 0 = 0"
| "last_non_nil from (Suc j) = (if from ! j \<noteq> None then Suc j else last_non_nil from j)"

definition DecodeURIPathFrom :: "Pattern \<Rightarrow> URIPath" where
  "DecodeURIPathFrom from = take (last_non_nil from (length from)) from"

section \<open>Time paths\<close>

type_synonym uint16 = "16 word"
type_synonym TimeComponentPosition = byte
type_synonym TimeComponent = slot
type_synonym TimePath = "TimeComponent list"

definition MaxTimeLength :: nat where "MaxTimeLength = 6"

definition TimeComponentPositionYear :: TimeComponentPosition where
  "TimeComponentPositionYear = 0"
definition TimeComponentPositionMonth :: TimeComponentPosition where
  "TimeComponentPositionMonth = 1"
definition TimeComponentPositionFiveDays :: TimeComponentPosition where
  "TimeComponentPositionFiveDays = 2"
definition TimeComponentPositionDay :: TimeComponentPosition where
  "TimeComponentPositionDay = 3"
definition TimeComponentPositionSixHours :: TimeComponentPosition where
  "TimeComponentPositionSixHours = 4"
definition TimeComponentPositionHour :: TimeComponentPosition where
  "TimeComponentPositionHour = 5"

definition MinYear :: uint16 where "MinYear = 2015"
definition MaxYear :: uint16 where "MaxYear = 2050"
definition MinMonth :: uint16 where "MinMonth = 1"
definition MaxMonth :: uint16 where "MaxMonth = 12"
definition MinFiveDays :: uint16 where "MinFiveDays = 1"
definition MaxFiveDays :: uint16 where "MaxFiveDays = 6"
definition MinDay :: uint16 where "MinDay = 1"
definition MaxDay :: uint16 where "MaxDay = 31"
definition MaxDayShortMonth :: uint16 where "MaxDayShortMonth = 30"
definition MaxDayFebruary :: uint16 where "MaxDayFebruary = 28"
definition MaxDayFebruaryLeapYear :: uint16 where "MaxDayFebruaryLeapYear = 29"
definition MinSixHours :: uint16 where "MinSixHours = 1"
definition MaxSixHours :: uint16 where "MaxSixHours = 4"

text \<open>\<^verbatim>\<open>binary.LittleEndian.PutUint16\<close> and \<^verbatim>\<open>Uint16\<close>.\<close>

definition PutUint16 :: "uint16 \<Rightarrow> bytes" where
  "PutUint16 v = [ucast v, ucast (drop_bit 8 v)]"

definition Uint16 :: "byte \<Rightarrow> byte \<Rightarrow> uint16" where
  "Uint16 b0 b1 = or (ucast b0) (push_bit 8 (ucast b1))"

definition NewTimeComponent :: "uint16 \<Rightarrow> TimeComponentPosition \<Rightarrow> TimeComponent" where
  "NewTimeComponent quantity position = Some (position # PutUint16 quantity)"

text \<open>
  \<^verbatim>\<open>tc.Quantity()\<close> reads \<^verbatim>\<open>tc[1:3]\<close>; on a slice of fewer than three bytes this is
  modelled as the run-time panic (capacity beyond the length is not modelled).
\<close>

definition Quantity :: "TimeComponent \<Rightarrow> error + uint16" where
  "Quantity tc =
     (if 3 \<le> slot_len tc then Inr (Uint16 (slot_bytes tc ! 1) (slot_bytes tc ! 2))
      else Inl PanicIndexOutOfRange)"

definition ebind :: "error + 'a \<Rightarrow> ('a \<Rightarrow> error + 'b) \<Rightarrow> error + 'b" where
  "ebind m f = (case m of Inl e \<Rightarrow> Inl e | Inr x \<Rightarrow> f x)"

text \<open>
  \<^verbatim>\<open>TimeComponentBounds\<close>.  The inner \<^verbatim>\<open>switch\<close> on the month has no default: for a
  month outside 1..12 control falls to the last \<^verbatim>\<open>return\<close> of the case.  The
  arithmetic is that of \<^verbatim>\<open>uint16\<close>.
\<close>

definition TimeComponentBounds ::
  "TimePath \<Rightarrow> TimeComponentPosition \<Rightarrow> error + uint16 \<times> uint16" where
  "TimeComponentBounds prefix position =
     (if position = TimeComponentPositionYear then Inr (MinYear, MaxYear)
      else if position = TimeComponentPositionMonth then Inr (MinMonth, MaxMonth)
      else if position = TimeComponentPositionFiveDays then Inr (MinFiveDays, MaxFiveDays)
      else if position = TimeComponentPositionDay then
        ebind (index prefix (unat TimeComponentPositionFiveDays)) (\<lambda>c5.
        ebind (Quantity c5) (\<lambda>fivedays.
          if fivedays = 6 then
            ebind (index prefix (unat TimeComponentPositionMonth)) (\<lambda>cm.
            ebind (Quantity cm) (\<lambda>month.
              if month \<in> {1, 3, 5, 7, 8, 10, 12} then Inr (26, MaxDay)
              else if month \<in> {4, 6, 9, 11} then Inr (26, MaxDayShortMonth)
              else if month = 2 then
                ebind (index prefix (unat TimeComponentPositionYear)) (\<lambda>cy.
                ebind (Quantity cy) (\<lambda>year.
                  if year mod 4 = 0 \<and> (year mod 100 \<noteq> 0 \<or> year mod 400 = 0)
                  then Inr (26, MaxDayFebruaryLeapYear)
                  else Inr (26, MaxDayFebruary)))
              else Inr (5 * (fivedays - 1) + 1, 5 * fivedays)))
          else Inr (5 * (fivedays - 1) + 1, 5 * fivedays)))
      else if position = TimeComponentPositionSixHours then Inr (MinSixHours, MaxSixHours)
      else if position = TimeComponentPositionHour then
        ebind (index prefix (unat TimeComponentPositionSixHours)) (\<lambda>c6.
        ebind (Quantity c6) (\<lambda>sixhours. Inr (6 * (sixhours - 1), 6 * sixhours - 1)))
      else Inl PanicInvalidPosition)"

definition ValidateTimeComponent ::
  "TimePath \<Rightarrow> uint16 \<Rightarrow> TimeComponentPosition \<Rightarrow> error + bool" where
  "ValidateTimeComponent prefix quantity position =
     ebind (TimeComponentBounds prefix position) (\<lambda>(min, max).
       Inr (min \<le> quantity \<and> quantity \<le> max))"

fun ParseTimeFromPath_loop :: "nat \<Rightarrow> uint16 list \<Rightarrow> TimePath \<Rightarrow> error + TimePath" where
  "ParseTimeFromPath_loop i [] components = Inr components"
| "ParseTimeFromPath_loop i (quantity # rest) components =
     ebind (ValidateTimeComponent components quantity (of_nat i)) (\<lambda>ok.
       if \<not> ok then Inl (ErrInvalidTimeComponent (unat quantity) i)
       else ParseTimeFromPath_loop (Suc i) rest
              (components @ [NewTimeComponent quantity (of_nat i)]))"

definition ParseTimeFromPath :: "uint16 list \<Rightarrow> error + TimePath" where
  "ParseTimeFromPath timePath =
     (if length timePath > MaxTimeLength then Inl ErrExpiryPathTooLong
      else ParseTimeFromPath_loop 0 timePath [])"

text \<open>
  \<^verbatim>\<open>EncodeTimePathInto\<close> stores the components and leaves the other slots of the
  buffer as they are; \<^verbatim>\<open>DecodeTimePathFrom\<close> is the loop of \<^verbatim>\<open>DecodeURIPathFrom\<close>.
\<close>

definition EncodeTimePathInto :: "TimePath \<Rightarrow> Pattern \<Rightarrow> error + Pattern" where
  "EncodeTimePathInto tp into = store_all 0 tp into"

definition DecodeTimePathFrom :: "Pattern \<Rightarrow> TimePath" where
  "DecodeTimePathFrom from = take (last_non_nil from (length from)) from"

text \<open>
  \<^verbatim>\<open>copy(buf[start:start+n], src)\<close>: the slice expression panics when \<open>start + n\<close>
  exceeds the capacity of \<open>buf\<close> (its length, for a buffer from \<^verbatim>\<open>make([]byte, k)\<close>);
  \<^verbatim>\<open>copy\<close> then moves as many bytes as fit.
\<close>

definition copy_at :: "bytes \<Rightarrow> nat \<Rightarrow> nat \<Rightarrow> bytes \<Rightarrow> error + bytes" where
  "copy_at buf start n src =
     (if start + n \<le> length buf
      then Inr (take start buf @ take n src @ drop (start + min n (length src)) buf)
      else Inl PanicIndexOutOfRange)"

fun TimeToBytes_loop :: "TimePath \<Rightarrow> nat \<Rightarrow> bytes \<Rightarrow> error + bytes" where
  "TimeToBytes_loop [] start buf = Inr buf"
| "TimeToBytes_loop (component # rest) start buf =
     ebind (copy_at buf start 3 (slot_bytes component)) (\<lambda>buf'.
       TimeToBytes_loop rest (start + 3) buf')"

definition TimeToBytes :: "TimePath \<Rightarrow> error + bytes" where
  "TimeToBytes tp =
     (let len = sum_list (map slot_len tp);
          bytelen = (if len = 0 then 0 else 2 * len + 1);
          buf = replicate (1 + bytelen) 0;
          buf = buf[0 := of_nat (length tp)]
      in TimeToBytes_loop tp 1 buf)"

text \<open>
  The day range as the specification words it, from the year, the month and the five-day
  index \<open>k\<close> as numbers: \<open>5(k - 1) + 1 .. 5k\<close> for \<open>k\<close> in 1..5, and for index 6 the
  range from day 26 to the month's natural end.
\<close>

definition spec_day_bounds :: "nat \<Rightarrow> nat \<Rightarrow> nat \<Rightarrow> nat \<times> nat" where
  "spec_day_bounds year month k =
     (if k \<le> 5 then (5 * (k - 1) + 1, 5 * k)
      else (26,
        if month \<in> {1, 3, 5, 7, 8, 10, 12} then 31
        else if month \<in> {4, 6, 9, 11} then 30
        else if year mod 4 = 0 \<and> (year mod 100 \<noteq> 0 \<or> year mod 400 = 0) then 29
        else 28))"

section \<open>Marshalling of patterns\<close>

type_synonym uint32 = "32 word"

definition MarshalledTypePattern :: byte where
  "MarshalledTypePattern = 1"

definition newMessageBuffer :: "byte \<Rightarrow> bytes" where
  "newMessageBuffer marshalledType = [marshalledType]"

text \<open>
  \<^verbatim>\<open>checkMessageType\<close> returns nil (\<open>None\<close>) on another type byte, else the rest of the
  message, a non-nil slice; reading \<^verbatim>\<open>message[0]\<close> of an empty message panics.
\<close>

definition checkMessageType :: "bytes \<Rightarrow> byte \<Rightarrow> error + bytes option" where
  "checkMessageType message expected =
     (case message of
        [] \<Rightarrow> Inl PanicIndexOutOfRange
      | b # rest \<Rightarrow> if b \<noteq> expected then Inr None else Inr (Some rest))"

text \<open>\<^verbatim>\<open>binary.LittleEndian.PutUint32\<close> and \<^verbatim>\<open>Uint32\<close>.\<close>

definition PutUint32 :: "uint32 \<Rightarrow> bytes" where
  "PutUint32 v = [ucast v, ucast (drop_bit 8 v), ucast (drop_bit 16 v), ucast (drop_bit 24 v)]"

definition Uint32 :: "byte \<Rightarrow> byte \<Rightarrow> byte \<Rightarrow> byte \<Rightarrow> uint32" where
  "Uint32 b0 b1 b2 b3 =
     or (ucast b0) (or (push_bit 8 (ucast b1)) (or (push_bit 16 (ucast b2)) (push_bit 24 (ucast b3))))"

text \<open>
  \<^verbatim>\<open>marshalAppendLength\<close>: the length, a non-negative \<^verbatim>\<open>int\<close>, is converted with
  \<^verbatim>\<open>uint32(length)\<close>, which keeps its low 32 bits.  \<^verbatim>\<open>unmarshalPrefixLength\<close> reads
  four bytes back into an \<^verbatim>\<open>int\<close> (of 64 bits, so the value is not negative); on a
  buffer of fewer than four bytes the slice expression panics.
\<close>

definition marshalAppendLength :: "nat \<Rightarrow> bytes \<Rightarrow> bytes" where
  "marshalAppendLength len buf = buf @ PutUint32 (of_nat len)"

definition unmarshalPrefixLength :: "bytes \<Rightarrow> error + nat \<times> bytes" where
  "unmarshalPrefixLength buf =
     (if length buf < 4 then Inl PanicIndexOutOfRange
      else Inr (unat (Uint32 (buf ! 0) (buf ! 1) (buf ! 2) (buf ! 3)), drop 4 buf))"

text \<open>
  \<^verbatim>\<open>marshalAppendWithLength(newMarshallableBytes(component), buf)\<close>: the argument is a
  non-nil pointer, so the length and the bytes are appended.
\<close>

definition marshalAppendWithLength :: "slot \<Rightarrow> bytes \<Rightarrow> bytes" where
  "marshalAppendWithLength component buf =
     marshalAppendLength (slot_len component) buf @ slot_bytes component"

text \<open>
  \<^verbatim>\<open>unmarshalPrefixWithLengthRaw\<close> followed by \<^verbatim>\<open>marshallableBytes.Unmarshal\<close>: the
  component read is nil when the length is 0, else the next \<open>length\<close> bytes.
\<close>

definition unmarshalPrefixWithLength :: "bytes \<Rightarrow> error + slot \<times> bytes" where
  "unmarshalPrefixWithLength buf =
     ebind (unmarshalPrefixLength buf) (\<lambda>(len, buf).
       if len = 0 then Inr (None, buf)
       else if len \<le> length buf then Inr (Some (take len buf), drop len buf)
       else Inl PanicIndexOutOfRange)"

text \<open>
  In \<^verbatim>\<open>Marshal\<close>, \<^verbatim>\<open>for last = len(p) - 1; last != -1; last-- { if len(p[last]) != 0 { break } }; last++\<close>:
  the index one past the last non-empty slot among the first \<open>n\<close>.
\<close>

fun last_nonempty :: "Pattern \<Rightarrow> nat \<Rightarrow> nat" where
  "last_nonempty p 0 = 0"
| "last_nonempty p (Suc j) = (if slot_len (p ! j) \<noteq> 0 then Suc j else last_nonempty p j)"

text \<open>\<^verbatim>\<open>for i := 0; i != last; i++\<close>, with \<open>k\<close> the number of indices left.\<close>

fun Marshal_loop :: "Pattern \<Rightarrow> nat \<Rightarrow> nat \<Rightarrow> bytes \<Rightarrow> bytes" where
  "Marshal_loop p i 0 buf = buf"
| "Marshal_loop p i (Suc k) buf =
     Marshal_loop p (Suc i) k
       (if slot_len (p ! i) \<noteq> 0
        then marshalAppendWithLength (p ! i) (marshalAppendLength i buf)
        else buf)"

definition Marshal :: "Pattern \<Rightarrow> bytes" where
  "Marshal p =
     (let buf = newMessageBuffer MarshalledTypePattern;
          buf = marshalAppendLength (length p) buf;
          lasti = last_nonempty p (length p);
          buf = marshalAppendLength lasti buf
      in Marshal_loop p 0 lasti buf)"

text \<open>
  The loop \<^verbatim>\<open>for i != last\<close> of \<^verbatim>\<open>Unmarshal\<close>.  The tests \<^verbatim>\<open>buf == nil\<close> after the
  reads cannot succeed, a slice of a non-nil slice being non-nil, and are left out.
  Every round consumes at least four bytes or panics.
\<close>

function Unmarshal_loop :: "int \<Rightarrow> int \<Rightarrow> bytes \<Rightarrow> Pattern \<Rightarrow> error + Pattern" where
  "Unmarshal_loop i lasti buf pattern =
     (if i = lasti then Inr pattern
      else
        (case unmarshalPrefixLength buf of
           Inl e \<Rightarrow> Inl e
         | Inr (i', buf1) \<Rightarrow>
             (case unmarshalPrefixWithLength buf1 of
                Inl e \<Rightarrow> Inl e
              | Inr (c, buf2) \<Rightarrow>
                  (case store pattern i' c of
                     Inl e \<Rightarrow> Inl e
                   | Inr pattern' \<Rightarrow> Unmarshal_loop (int i') lasti buf2 pattern'))))"
  by pat_completeness auto
termination
  by (relation "measure (\<lambda>(i, lasti, buf, pattern). length buf)")
     (auto simp: unmarshalPrefixLength_def unmarshalPrefixWithLength_def ebind_def
           split: if_splits)

declare Unmarshal_loop.simps [simp del]

text \<open>
  \<^verbatim>\<open>Unmarshal\<close>: \<open>Inr None\<close> is the return value false, \<open>Inr (Some p)\<close> is true with
  the pattern stored through the receiver.
\<close>

definition Unmarshal :: "bytes \<Rightarrow> error + Pattern option" where
  "Unmarshal marshalled =
     ebind (checkMessageType marshalled MarshalledTypePattern) (\<lambda>r.
       case r of
         None \<Rightarrow> Inr None
       | Some buf \<Rightarrow>
           ebind (unmarshalPrefixLength buf) (\<lambda>(patternLength, buf).
             let pattern = replicate patternLength None in
             ebind (unmarshalPrefixLength buf) (\<lambda>(lasti, buf).
               ebind (Unmarshal_loop (- 1) (int lasti - 1) buf pattern) (\<lambda>pattern.
                 Inr (Some pattern)))))"

text \<open>
  The wire form as the specification words it: the type byte, the pattern length, the
  index \<open>K\<close> one past the last non-empty slot, and for each non-empty slot below \<open>K\<close> its
  index, its length and its bytes; every integer as four little-endian bytes.
\<close>

definition wire_entry :: "Pattern \<Rightarrow> nat \<Rightarrow> bytes" where
  "wire_entry p i =
     (if slot_len (p ! i) = 0 then []
      else PutUint32 (of_nat i) @ PutUint32 (of_nat (slot_len (p ! i))) @ slot_bytes (p ! i))"

definition wire_form :: "Pattern \<Rightarrow> bytes" where
  "wire_form p =
     1 # PutUint32 (of_nat (length p)) @ PutUint32 (of_nat (last_nonempty p (length p))) @
     concat (map (wire_entry p) [0..<last_nonempty p (length p)])"

text \<open>
  The pattern that reading the entries of the slots \<open>j, \<dots>, j + k - 1\<close> of \<open>p\<close> leaves in
  the buffer \<open>pat\<close>: the bytes of every non-empty slot, stored at its index.
\<close>

fun fill :: "Pattern \<Rightarrow> nat \<Rightarrow> nat \<Rightarrow> Pattern \<Rightarrow> Pattern" where
  "fill p j 0 pat = pat"
| "fill p j (Suc k) pat =
     fill p (Suc j) k (if slot_len (p ! j) \<noteq> 0 then pat[j := Some (slot_bytes (p ! j))] else pat)"

section \<open>Encryption with the per-URI cache entry\<close>

text \<open>
  The WKD-IBE library, the key generation and the symmetric cipher are outside the
  repository; they are the fields of a record of functions.  \<open>'pp\<close> is the type of
  public parameters, \<open>'prep\<close> and \<open>'ctp\<close> are the types of pointers to prepared attribute
  lists and to ciphertexts (nil included), \<open>'g\<close> is the type of encryptable group
  elements and \<open>'r\<close> the randomness a call draws.  \<^verbatim>\<open>AdjustPreparedAttributeList\<close>
  updates its first argument in place and is modelled as returning the new value.
  Marshalling a ciphertext may panic (on a nil pointer); the other library functions
  are taken to return.  \<open>lib_aesCTREncryptInMem\<close> returns the bytes the cipher leaves
  in the destination, \<^verbatim>\<open>encrypted[EncryptedKeySize:]\<close>, or its error.
\<close>

record ('z, 'pp, 'prep, 'ctp, 'g, 'r) library =
  lib_HashToZp :: "bytes \<Rightarrow> 'z"
  lib_PrepareAttributeList :: "'pp \<Rightarrow> 'z AttributeList \<Rightarrow> 'prep"
  lib_AdjustPreparedAttributeList ::
    "'prep \<Rightarrow> 'pp \<Rightarrow> 'z AttributeList \<Rightarrow> 'z AttributeList \<Rightarrow> 'prep"
  lib_GenerateKey :: "'r \<Rightarrow> bytes \<times> 'g"
  lib_EncryptPrepared :: "'r \<Rightarrow> 'g \<Rightarrow> 'pp \<Rightarrow> 'prep \<Rightarrow> 'ctp"
  lib_CiphertextMarshal :: "'ctp \<Rightarrow> error + bytes"
  lib_EncryptedKeySize :: nat
  lib_aesCTREncryptInMem :: "'r \<Rightarrow> bytes \<Rightarrow> bytes \<Rightarrow> error + bytes"

definition AESKeySize :: nat where "AESKeySize = 16"
definition aes_BlockSize :: nat where "aes_BlockSize = 16"

text \<open>
  \<^verbatim>\<open>encryptionCacheEntry\<close> without its lock (the execution modelled is sequential).
  The pattern is a slice and may be nil, which \<^verbatim>\<open>entry.pattern == nil\<close> tests.
\<close>

record ('z, 'prep, 'ctp) encryptionCacheEntry =
  entry_pattern :: "Pattern option"
  entry_attrs :: "'z AttributeList"
  entry_key :: bytes
  entry_encryptedKey :: 'ctp
  entry_precomputed :: 'prep

text \<open>The slots of a pattern slice; a nil slice has none.\<close>

fun slots :: "Pattern option \<Rightarrow> Pattern" where
  "slots None = []"
| "slots (Some p) = p"

text \<open>
  What a call of \<^verbatim>\<open>EncryptWithPattern\<close> that got its cache entry leaves behind: the
  value or error returned, the local \<^verbatim>\<open>key\<close>, the entry, and the number of calls of
  \<^verbatim>\<open>wkdibe.EncryptPrepared\<close> made.
\<close>

record ('z, 'prep, 'ctp) outcome =
  returned :: "error + bytes"
  used_key :: bytes
  entry_after :: "('z, 'prep, 'ctp) encryptionCacheEntry"
  encapsulations :: nat

text \<open>\<^verbatim>\<open>copy(encrypted[:n], src)\<close> for \<open>n\<close> within the length of \<open>encrypted\<close>.\<close>

definition copy_prefix :: "nat \<Rightarrow> bytes \<Rightarrow> bytes \<Rightarrow> bytes" where
  "copy_prefix n src encrypted =
     take (min n (length src)) src @ drop (min n (length src)) encrypted"

text \<open>
  The end of \<^verbatim>\<open>EncryptWithPattern\<close>: the key and the marshalled encapsulation are
  copied, then the message is encrypted after the first \<^verbatim>\<open>EncryptedKeySize\<close> bytes.
\<close>

definition copy_and_encrypt ::
  "('z, 'pp, 'prep, 'ctp, 'g, 'r) library \<Rightarrow> 'r \<Rightarrow>
   ('z, 'prep, 'ctp) encryptionCacheEntry \<Rightarrow> nat \<Rightarrow> bytes \<Rightarrow> ('z, 'prep, 'ctp) outcome" where
  "copy_and_encrypt L rnd entry n message =
     (let encrypted = replicate (lib_EncryptedKeySize L + aes_BlockSize + length message) 0 in
      case lib_CiphertextMarshal L (entry_encryptedKey entry) of
        Inl e \<Rightarrow>
          \<lparr>returned = Inl e, used_key = entry_key entry, entry_after = entry, encapsulations = n\<rparr>
      | Inr marshalled \<Rightarrow>
          let encrypted = copy_prefix (lib_EncryptedKeySize L) marshalled encrypted in
          \<lparr>returned =
             (case lib_aesCTREncryptInMem L rnd message (entry_key entry) of
                Inl e \<Rightarrow> Inl e
              | Inr tail \<Rightarrow> Inr (take (lib_EncryptedKeySize L) encrypted @ tail)),
           used_key = entry_key entry, entry_after = entry, encapsulations = n\<rparr>)"

text \<open>
  The body of \<^verbatim>\<open>EncryptWithPattern\<close> once the parameters and the entry are at hand;
  the locks are no-ops in a sequential execution.
\<close>

definition encrypt_with_entry ::
  "('z, 'pp, 'prep, 'ctp, 'g, 'r) library \<Rightarrow> 'r \<Rightarrow> 'pp \<Rightarrow>
   ('z, 'prep, 'ctp) encryptionCacheEntry \<Rightarrow> Pattern option \<Rightarrow> bytes \<Rightarrow>
   ('z, 'prep, 'ctp) outcome" where
  "encrypt_with_entry L rnd params entry pattern message =
     (let failed = (\<lambda>e entry. \<lparr>returned = Inl e, used_key = replicate AESKeySize 0,
                               entry_after = entry, encapsulations = 0\<rparr>) in
      case Equals (slots pattern) (slots (entry_pattern entry)) of
        Inl e \<Rightarrow> failed e entry
      | Inr identical \<Rightarrow>
          if identical then copy_and_encrypt L rnd entry 0 message
          else
            (case
               (if entry_pattern entry = None then
                  let attrs = ToAttrs (lib_HashToZp L) (slots pattern) in
                  Inr (attrs,
                       entry\<lparr>entry_precomputed := lib_PrepareAttributeList L params attrs\<rparr>,
                       True)
                else
                  (case ToAttrsWithReference (lib_HashToZp L) (slots pattern)
                          (slots (entry_pattern entry)) (entry_attrs entry) of
                     Inl e \<Rightarrow> Inl e
                   | Inr (attrs, identical) \<Rightarrow>
                       if \<not> identical then
                         Inr (attrs,
                              entry\<lparr>entry_precomputed :=
                                      lib_AdjustPreparedAttributeList L (entry_precomputed entry)
                                        params (entry_attrs entry) attrs\<rparr>,
                              True)
                       else Inr (attrs, entry, False)))
             of
               Inl e \<Rightarrow> failed e entry
             | Inr (attrs, entry, updateEntryAndEncrypt) \<Rightarrow>
                 if updateEntryAndEncrypt then
                   (let (k, encryptable) = lib_GenerateKey L rnd;
                        entry = entry\<lparr>entry_pattern := pattern, entry_attrs := attrs,
                                      entry_key := k,
                                      entry_encryptedKey :=
                                        lib_EncryptPrepared L rnd encryptable params
                                          (entry_precomputed entry)\<rparr>
                    in copy_and_encrypt L rnd entry 1 message)
                 else copy_and_encrypt L rnd entry 0 message))"

text \<open>
  \<^verbatim>\<open>EncryptWithPattern\<close>: the two cache lookups (for the parameters of the hierarchy
  and for the entry of the URI) are arguments; when one fails its error is returned
  and no entry is touched.  The cache, an LRU cache of another repository, creates a
  fresh entry on a miss.
\<close>

definition EncryptWithPattern ::
  "('z, 'pp, 'prep, 'ctp, 'g, 'r) library \<Rightarrow> 'r \<Rightarrow> error + 'pp \<Rightarrow>
   error + ('z, 'prep, 'ctp) encryptionCacheEntry \<Rightarrow> Pattern option \<Rightarrow> bytes \<Rightarrow>
   error + ('z, 'prep, 'ctp) outcome" where
  "EncryptWithPattern L rnd cache_params cache_entry pattern message =
     (case cache_params of
        Inl err \<Rightarrow> Inl err
      | Inr params \<Rightarrow>
          (case cache_entry of
             Inl err \<Rightarrow> Inl err
           | Inr entry \<Rightarrow> Inr (encrypt_with_entry L rnd params entry pattern message)))"

text \<open>
  A stand-in for the library, to run the model on: the hash is the length, a ciphertext
  pointer is \<open>None\<close> when nil, the key is sixteen copies of the random byte, the
  encapsulation is four bytes long, and the cipher prepends a block of zeros.
\<close>

definition example_library ::
  "(nat, unit, nat AttributeList, bytes option, byte, byte) library" where
  "example_library =
     \<lparr>lib_HashToZp = length,
      lib_PrepareAttributeList = (\<lambda>params attrs. attrs),
      lib_AdjustPreparedAttributeList = (\<lambda>prep params old new. new),
      lib_GenerateKey = (\<lambda>r. (replicate 16 r, r)),
      lib_EncryptPrepared = (\<lambda>r g params prep. Some [r, g, 1, 2]),
      lib_CiphertextMarshal = (\<lambda>c. case c of None \<Rightarrow> Inl PanicNilDereference | Some bs \<Rightarrow> Inr bs),
      lib_EncryptedKeySize = 4,
      lib_aesCTREncryptInMem = (\<lambda>r message k. Inr (replicate 16 0 @ message))\<rparr>"

definition new_entry :: "(nat, nat AttributeList, bytes option) encryptionCacheEntry" where
  "new_entry =
     \<lparr>entry_pattern = None, entry_attrs = Map.empty, entry_key = replicate 16 0,
      entry_encryptedKey = None, entry_precomputed = Map.empty\<rparr>"

text \<open>
  The first \<open>n\<close> bytes of the output after \<^verbatim>\<open>copy(encrypted[:n], marshalled)\<close> into the
  zeroed buffer.
\<close>

definition key_block :: "nat \<Rightarrow> bytes \<Rightarrow> bytes" where
  "key_block n marshalled =
     take (min n (length marshalled)) marshalled @ replicate (n - min n (length marshalled)) 0"

section \<open>Parsing a timestamp, and the covering range of time paths\<close>

text \<open>
  \<^verbatim>\<open>ParseTime\<close> reads the year, month, day and hour of the timestamp in UTC, through
  Go's \<^verbatim>\<open>time\<close> package; a timestamp is modelled by these four fields.  The year is an
  \<^verbatim>\<open>int\<close>; the conversions to \<^verbatim>\<open>uint16\<close> keep the low 16 bits, and the arithmetic on
  the path is that of \<^verbatim>\<open>uint16\<close>.
\<close>

record timestamp =
  ts_year :: int
  ts_month :: nat
  ts_day :: nat
  ts_hour :: nat

definition ParseTime :: "timestamp \<Rightarrow> error + TimePath" where
  "ParseTime t =
     (let p0 = (of_int (ts_year t) :: uint16);
          p1 = (of_nat (ts_month t) :: uint16);
          p3 = (of_nat (ts_day t) :: uint16);
          p2 = (p3 - 1) div 5 + 1;
          p2 = (if p2 = 7 then 6 else p2);
          p5 = (of_nat (ts_hour t) :: uint16);
          p4 = p5 div 6 + 1
      in ParseTimeFromPath [p0, p1, p2, p3, p4, p5])"

text \<open>
  The fields of a Go timestamp are those of a date of the Gregorian calendar and an
  hour of the day.
\<close>

definition leap_year :: "int \<Rightarrow> bool" where
  "leap_year y = (y mod 4 = 0 \<and> (y mod 100 \<noteq> 0 \<or> y mod 400 = 0))"

definition days_in_month :: "int \<Rightarrow> nat \<Rightarrow> nat" where
  "days_in_month y m =
     (if m \<in> {4, 6, 9, 11} then 30
      else if m = 2 then (if leap_year y then 29 else 28)
      else 31)"

definition valid_timestamp :: "timestamp \<Rightarrow> bool" where
  "valid_timestamp t =
     (1 \<le> ts_month t \<and> ts_month t \<le> 12 \<and>
      1 \<le> ts_day t \<and> ts_day t \<le> days_in_month (ts_year t) (ts_month t) \<and>
      ts_hour t \<le> 23)"

text \<open>Timestamps whose year the time hierarchy holds.\<close>

definition supported :: "timestamp \<Rightarrow> bool" where
  "supported t = (valid_timestamp t \<and> 2015 \<le> ts_year t \<and> ts_year t \<le> 2050)"

text \<open>The order of timestamps at the granularity of one hour.\<close>

definition hour_le :: "timestamp \<Rightarrow> timestamp \<Rightarrow> bool" where
  "hour_le s e =
     (ts_year s < ts_year e \<or> (ts_year s = ts_year e \<and>
       (ts_month s < ts_month e \<or> (ts_month s = ts_month e \<and>
         (ts_day s < ts_day e \<or> (ts_day s = ts_day e \<and> ts_hour s \<le> ts_hour e))))))"

text \<open>
  Modelled from the spec: the six quantities of the time path of a timestamp (year,
  month, five-day index \<open>((day - 1) / 5) + 1\<close> clamped to 6, day, six-hour index
  \<open>hour / 6 + 1\<close>, hour), as numbers.
\<close>

definition path_of :: "timestamp \<Rightarrow> nat list" where
  "path_of t =
     [nat (ts_year t), ts_month t, min 6 ((ts_day t - 1) div 5 + 1), ts_day t,
      ts_hour t div 6 + 1, ts_hour t]"

text \<open>
  Modelled from the spec: the inclusive bounds of the component that follows a prefix
  of quantities (the table of positions of the data model, with the day bounds of
  \<open>spec_day_bounds\<close>).
\<close>

definition time_bounds :: "nat list \<Rightarrow> nat \<times> nat" where
  "time_bounds pre =
     (if length pre = 0 then (2015, 2050)
      else if length pre = 1 then (1, 12)
      else if length pre = 2 then (1, 6)
      else if length pre = 3 then spec_day_bounds (pre ! 0) (pre ! 1) (pre ! 2)
      else if length pre = 4 then (1, 4)
      else (6 * (pre ! 4 - 1), 6 * (pre ! 4) - 1))"

text \<open>
  A sequence of quantities that continues the prefix \<open>pre\<close> within the bounds of every
  position.
\<close>

fun within_bounds :: "nat list \<Rightarrow> nat list \<Rightarrow> bool" where
  "within_bounds pre [] = True"
| "within_bounds pre (x # xs) =
     (fst (time_bounds pre) \<le> x \<and> x \<le> snd (time_bounds pre) \<and> within_bounds (pre @ [x]) xs)"

text \<open>The order of time paths of the same length: component by component.\<close>

fun path_le :: "nat list \<Rightarrow> nat list \<Rightarrow> bool" where
  "path_le [] ys = True"
| "path_le (x # xs) [] = False"
| "path_le (x # xs) (y # ys) = (x < y \<or> (x = y \<and> path_le xs ys))"

text \<open>A path covers the hours whose paths it is a prefix of.\<close>

definition is_prefix :: "nat list \<Rightarrow> nat list \<Rightarrow> bool" where
  "is_prefix q p = (take (length q) p = q)"

definition covers :: "nat list list \<Rightarrow> nat list \<Rightarrow> bool" where
  "covers paths p = list_ex (\<lambda>q. is_prefix q p) paths"

text \<open>
  Modelled from the spec: \<^verbatim>\<open>TimeRange\<close>, whose source is not among the files of the
  repository (its tests and its caller \<^verbatim>\<open>Delegate\<close> are).  The functions below work
  under a prefix \<open>pre\<close> common to the start and the end, on what follows it, and
  return paths relative to \<open>pre\<close>.

  \<open>at_start pre xs\<close>: \<open>xs\<close> is the first hour of the block \<open>pre\<close> (every component at
  its lower bound); \<open>at_end\<close> likewise for the last hour.
\<close>

fun at_start :: "nat list \<Rightarrow> nat list \<Rightarrow> bool" where
  "at_start pre [] = True"
| "at_start pre (x # xs) = (x = fst (time_bounds pre) \<and> at_start (pre @ [x]) xs)"

fun at_end :: "nat list \<Rightarrow> nat list \<Rightarrow> bool" where
  "at_end pre [] = True"
| "at_end pre (y # ys) = (y = snd (time_bounds pre) \<and> at_end (pre @ [y]) ys)"

text \<open>
  Step 1 of the specification, from the start to the end of the block \<open>pre\<close>: ascend
  from the hour of the start, at every level jumping forward over the whole blocks
  that follow the start's; a block that the start opens is taken whole.
\<close>

fun ascend :: "nat list \<Rightarrow> nat list \<Rightarrow> nat list list" where
  "ascend pre [] = [[]]"
| "ascend pre (x # xs) =
     (if at_start pre (x # xs) then [[]]
      else map ((#) x) (ascend (pre @ [x]) xs) @
           map (\<lambda>c. [c]) [Suc x..<Suc (snd (time_bounds pre))])"

text \<open>
  Step 2, from the beginning of the block \<open>pre\<close> to the end: the whole blocks before
  the end's at every level, descending into the end; a block that the end closes is
  taken whole.
\<close>

fun descend :: "nat list \<Rightarrow> nat list \<Rightarrow> nat list list" where
  "descend pre [] = [[]]"
| "descend pre (y # ys) =
     (if at_end pre (y # ys) then [[]]
      else map (\<lambda>c. [c]) [fst (time_bounds pre)..<y] @
           map ((#) y) (descend (pre @ [y]) ys))"

text \<open>
  The three steps together: below the components the start and the end share, the
  ascent from the start, the coarsest blocks strictly between the two (step 3), and
  the descent into the end; a block that the interval fills is taken whole.
\<close>

fun range_under :: "nat list \<Rightarrow> nat list \<Rightarrow> nat list \<Rightarrow> nat list list" where
  "range_under pre [] [] = [[]]"
| "range_under pre (x # xs) (y # ys) =
     (if at_start pre (x # xs) \<and> at_end pre (y # ys) then [[]]
      else if x = y then map ((#) x) (range_under (pre @ [x]) xs ys)
      else map ((#) x) (ascend (pre @ [x]) xs) @
           map (\<lambda>c. [c]) [Suc x..<y] @
           map ((#) y) (descend (pre @ [y]) ys))"
| "range_under pre xs ys = []"

text \<open>The time path of a sequence of quantities, and the quantities of a time path.\<close>

definition to_TimePath :: "nat list \<Rightarrow> TimePath" where
  "to_TimePath qs = map (\<lambda>(i, q). NewTimeComponent (of_nat q) (of_nat i)) (enumerate 0 qs)"

fun quantities :: "TimePath \<Rightarrow> error + nat list" where
  "quantities [] = Inr []"
| "quantities (tc # tp) =
     ebind (Quantity tc) (\<lambda>q. ebind (quantities tp) (\<lambda>qs. Inr (unat q # qs)))"

text \<open>
  Modelled from the spec: \<^verbatim>\<open>TimeRange(start, end)\<close> parses both timestamps (an error
  of \<^verbatim>\<open>ParseTime\<close> is returned) and returns the covering sequence of the interval
  between their hours.  The specification words no result for a start after the end;
  the model returns the empty sequence.
\<close>

definition TimeRange :: "timestamp \<Rightarrow> timestamp \<Rightarrow> error + TimePath list" where
  "TimeRange start end =
     ebind (ParseTime start) (\<lambda>startPath.
     ebind (ParseTime end) (\<lambda>endPath.
     ebind (quantities startPath) (\<lambda>s.
     ebind (quantities endPath) (\<lambda>e.
       if path_le s e then Inr (map to_TimePath (range_under [] s e)) else Inr []))))"

text \<open>The first and the last hour of the block \<open>pre\<close>, \<open>n\<close> levels below it.\<close>

fun first_path :: "nat list \<Rightarrow> nat \<Rightarrow> nat list" where
  "first_path pre 0 = []"
| "first_path pre (Suc n) =
     fst (time_bounds pre) # first_path (pre @ [fst (time_bounds pre)]) n"

fun last_path :: "nat list \<Rightarrow> nat \<Rightarrow> nat list" where
  "last_path pre 0 = []"
| "last_path pre (Suc n) =
     snd (time_bounds pre) # last_path (pre @ [snd (time_bounds pre)]) n"

text \<open>
  The hours that a sequence of time paths covers: the hour of \<open>t\<close> is covered when one
  of the paths is a prefix of the time path of \<open>t\<close> (a delegated key for a prefix
  decrypts every hour below it).
\<close>

definition covers_time :: "TimePath list \<Rightarrow> timestamp \<Rightarrow> bool" where
  "covers_time tps t =
     (case ParseTime t of
        Inl e \<Rightarrow> False
      | Inr tp \<Rightarrow> list_ex (\<lambda>q. take (length q) tp = q) tps)"

section \<open>Properties of Equals and Matches\<close>

lemma Equals_loop_char:
  "i + length rest \<le> length q \<Longrightarrow>
   Equals_loop i rest q = Inr (\<forall>j<length rest. bytes_Equal (rest ! j) (q ! (i + j)))"
proof (induction rest arbitrary: i)
  case Nil
  then show ?case by simp
next
  case (Cons c rest)
  have step: "(\<forall>j<Suc (length rest). bytes_Equal ((c # rest) ! j) (q ! (i + j))) \<longleftrightarrow>
        bytes_Equal c (q ! i) \<and> (\<forall>j<length rest. bytes_Equal (rest ! j) (q ! (Suc i + j)))"
    by (auto simp: less_Suc_eq_0_disj)
  from Cons.prems have "i < length q" and "Suc i + length rest \<le> length q" by simp_all
  with Cons.IH [of "Suc i"] step show ?case by (simp add: index_def)
qed

lemma Matches_loop_char:
  "i + length rest \<le> length q \<Longrightarrow>
   Matches_loop i rest q =
     Inr (\<forall>j<length rest. slot_len (rest ! j) = 0 \<or> bytes_Equal (rest ! j) (q ! (i + j)))"
proof (induction rest arbitrary: i)
  case Nil
  then show ?case by simp
next
  case (Cons c rest)
  have step: "(\<forall>j<Suc (length rest). slot_len ((c # rest) ! j) = 0 \<or>
                 bytes_Equal ((c # rest) ! j) (q ! (i + j))) \<longleftrightarrow>
        (slot_len c = 0 \<or> bytes_Equal c (q ! i)) \<and>
        (\<forall>j<length rest. slot_len (rest ! j) = 0 \<or> bytes_Equal (rest ! j) (q ! (Suc i + j)))"
    by (auto simp: less_Suc_eq_0_disj)
  from Cons.prems have "i < length q" and "Suc i + length rest \<le> length q" by simp_all
  with Cons.IH [of "Suc i"] step show ?case by (auto simp: index_def)
qed

lemma Equals_char:
  "Equals p q = Inr (length p = length q \<and> (\<forall>j<length p. bytes_Equal (p ! j) (q ! j)))"
  using Equals_loop_char [of 0 p q] by (simp add: Equals_def)

lemma Matches_char:
  "length p = length q \<Longrightarrow>
   Matches p q = Inr (\<forall>j<length p. slot_len (p ! j) = 0 \<or> bytes_Equal (p ! j) (q ! j))"
  using Matches_loop_char [of 0 p q] by (simp add: Matches_def)


subsection \<open>C2: what Matches returns\<close>

text \<open>
  The matching relation as the specification words it, with a free slot being a
  \<^verbatim>\<open>nil\<close> slot: every slot of \<open>p\<close> is free or byte-equal to the slot of \<open>q\<close> at
  the same index.
\<close>

definition spec_matches :: "Pattern \<Rightarrow> Pattern \<Rightarrow> bool" where
  "spec_matches p q = list_all2 (\<lambda>a b. a = None \<or> bytes_Equal a b) p q"

text \<open>
  C2, as stated, fails on the code.  The source tests \<^verbatim>\<open>len(comp) != 0\<close>, not
  \<^verbatim>\<open>comp != nil\<close>: a bound slot of zero length in \<open>P\<close> is skipped like a free one.
  With \<open>P = [[]byte{}]\<close> and \<open>Q = [[]byte{1}]\<close> the slot of \<open>P\<close> is neither nil nor
  byte-equal to the slot of \<open>Q\<close>, and yet \<^verbatim>\<open>P.Matches(Q)\<close> returns true.
\<close>

theorem Matches_free_is_nil_counterexample:
  "Matches [Some []] [Some [1]] = Inr True \<and> \<not> spec_matches [Some []] [Some [1]]"
  by (simp add: Matches_def slot_len_def spec_matches_def bytes_Equal_def)

text \<open>
  C2, amended: for patterns \<open>P\<close> and \<open>Q\<close> of equal length, \<^verbatim>\<open>P.Matches(Q)\<close> returns
  true if and only if for every index \<open>i\<close> the slot \<open>P[i]\<close> has length zero (it is free,
  or bound to the empty byte string) or \<open>P[i]\<close> equals \<open>Q[i]\<close> byte-wise; for patterns of
  different lengths \<^verbatim>\<open>Matches\<close> panics rather than returning.  The relation is
  asymmetric: \<open>[nil]\<close> matches \<open>[[]byte{1}]\<close> and not the other way round (see the
  witness).
\<close>

theorem Matches_zero_length_or_equal:
  "Matches p q =
     (if length p = length q
      then Inr (\<forall>i<length p. slot_len (p ! i) = 0 \<or> bytes_Equal (p ! i) (q ! i))
      else Inl PanicPatternLength)"
proof (cases "length p = length q")
  case True
  then show ?thesis by (simp add: Matches_char)
next
  case False
  then show ?thesis by (simp add: Matches_def)
qed

theorem Matches_zero_length_or_equal_witness:
  "Matches [None, Some [7]] [Some [1], Some [7]] = Inr True \<and>
   Matches [Some [1], Some [7]] [None, Some [7]] = Inr False \<and>
   Matches [None] [None, None] = Inl PanicPatternLength"
  using Matches_zero_length_or_equal [of "[None, Some [7]]" "[Some [1], Some [7]]"]
    Matches_zero_length_or_equal [of "[Some [1], Some [7]]" "[None, Some [7]]"]
    Matches_zero_length_or_equal [of "[None]" "[None, None]"]
  by (simp add: All_less_Suc slot_len_def bytes_Equal_def)

subsection \<open>C10: nil slots and zero-length slots are not told apart\<close>

text \<open>
  C10: \<^verbatim>\<open>Equals\<close> does not distinguish a free (nil) slot from a bound slot of zero
  length.  For same-length patterns \<open>P\<close> and \<open>Q\<close> such that at every index the slots are
  byte-equal, or one is nil while the other is a zero-length byte string,
  \<^verbatim>\<open>P.Equals(Q)\<close> returns true; and \<^verbatim>\<open>Matches\<close> treats the zero-length slot as
  free, so \<open>P\<close> matches \<open>Q\<close> and \<open>Q\<close> matches \<open>P\<close>.
\<close>

theorem Equals_Matches_nil_vs_empty:
  assumes "length p = length q"
    and "\<forall>i<length p. bytes_Equal (p ! i) (q ! i)
           \<or> (p ! i = None \<and> q ! i = Some [])
           \<or> (p ! i = Some [] \<and> q ! i = None)"
  shows "Equals p q = Inr True \<and> Matches p q = Inr True \<and> Matches q p = Inr True"
proof -
  have eq: "\<forall>i<length p. bytes_Equal (p ! i) (q ! i)"
    using assms(2) by (auto simp: bytes_Equal_def)
  then have eq': "\<forall>i<length q. bytes_Equal (q ! i) (p ! i)"
    using assms(1) by (simp add: bytes_Equal_def)
  have "Equals p q = Inr True"
    using assms(1) eq by (simp add: Equals_char)
  moreover have "Matches p q = Inr True"
    using assms(1) eq by (simp add: Matches_char)
  moreover have "Matches q p = Inr True"
    using assms(1) eq' by (simp add: Matches_char)
  ultimately show ?thesis by simp
qed

theorem Equals_Matches_nil_vs_empty_witness:
  "Equals [None, Some [5], Some []] [Some [], Some [5], None] = Inr True \<and>
   Matches [None, Some [5], Some []] [Some [], Some [5], None] = Inr True \<and>
   Matches [Some [], Some [5], None] [None, Some [5], Some []] = Inr True"
  using Equals_Matches_nil_vs_empty
    [of "[None, Some [5], Some []]" "[Some [], Some [5], None]"]
  by (simp add: All_less_Suc bytes_Equal_def)


subsection \<open>C3: ToAttrsWithReference against ToAttrs\<close>

lemma ToAttrs_loop_at:
  "ToAttrs_loop H i rest attrs k =
     (if i \<le> k \<and> k < i + length rest \<and> slot_len (rest ! (k - i)) \<noteq> 0
      then Some (Some (H (slot_bytes (rest ! (k - i))))) else attrs k)"
proof (induction rest arbitrary: i attrs k)
  case Nil
  then show ?case by auto
next
  case (Cons c rest)
  show ?case
  proof (cases "k = i")
    case True
    then show ?thesis by (simp add: Cons.IH)
  next
    case False
    then have "i \<le> k \<longleftrightarrow> Suc i \<le> k" by auto
    moreover have "Suc i \<le> k \<Longrightarrow> (c # rest) ! (k - i) = rest ! (k - Suc i)"
      by (simp add: Suc_diff_le)
    ultimately show ?thesis using False by (auto simp: Cons.IH)
  qed
qed

lemma ToAttrs_at:
  "ToAttrs H p k =
     (if k < length p \<and> slot_len (p ! k) \<noteq> 0 then Some (Some (H (slot_bytes (p ! k)))) else None)"
  by (simp add: ToAttrs_def ToAttrs_loop_at)

lemma ToAttrsWithReference_loop_char:
  "i + length rest \<le> length q \<Longrightarrow>
   ToAttrsWithReference_loop H i rest q (ToAttrs H q) (attrs, equal) =
     Inr (ToAttrs_loop H i rest attrs,
          equal \<and> (\<forall>j<length rest. bytes_Equal (rest ! j) (q ! (i + j))))"
proof (induction rest arbitrary: i attrs equal)
  case Nil
  then show ?case by simp
next
  case (Cons c rest)
  from Cons.prems have iq: "i < length q" and le: "Suc i + length rest \<le> length q"
    by simp_all
  have step: "(\<forall>j<Suc (length rest). bytes_Equal ((c # rest) ! j) (q ! (i + j))) \<longleftrightarrow>
        bytes_Equal c (q ! i) \<and> (\<forall>j<length rest. bytes_Equal (rest ! j) (q ! (Suc i + j)))"
    by (auto simp: less_Suc_eq_0_disj)
  show ?case
  proof (cases "slot_len c \<noteq> 0")
    case True
    show ?thesis
    proof (cases "bytes_Equal c (q ! i)")
      case eq: True
      with True have "slot_len (q ! i) \<noteq> 0" by (simp add: slot_len_def bytes_Equal_def)
      with iq eq have "map_lookup (ToAttrs H q) i = Some (H (slot_bytes c))"
        by (simp add: map_lookup_def ToAttrs_at bytes_Equal_def)
      with True eq iq step Cons.IH [OF le] show ?thesis by (simp add: index_def fun_upd_def)
    next
      case False
      with True iq step Cons.IH [OF le] show ?thesis by (simp add: index_def fun_upd_def)
    qed
  next
    case False
    then have "bytes_Equal c (q ! i) \<longleftrightarrow> slot_len (q ! i) = 0"
      by (auto simp: slot_len_def bytes_Equal_def)
    with False iq step Cons.IH [OF le] show ?thesis by (simp add: index_def)
  qed
qed

text \<open>
  C3, as stated, fails on the code: the flag is computed with \<^verbatim>\<open>len\<close> and
  \<^verbatim>\<open>bytes.Equal\<close>, so it does not see which slots are free.  For \<open>P = [nil]\<close> and
  \<open>Q = [[]byte{}]\<close> the flag is true although slot 0 is free in \<open>P\<close> and bound (to the
  empty byte string) in \<open>Q\<close>.  No slot is hashed at this input; the hash is instantiated
  with \<open>length\<close>.
\<close>

theorem ToAttrsWithReference_flag_counterexample:
  "ToAttrsWithReference length [None] [Some []] (ToAttrs length [Some []]) = Inr (Map.empty, True)
   \<and> \<not> spec_agree [None] [Some []]"
  by (simp add: ToAttrsWithReference_def index_def slot_len_def spec_agree_def)

text \<open>
  C3, amended: for all patterns \<open>P\<close> and \<open>Q\<close> of equal length, if \<open>qAttrs\<close> equals
  \<^verbatim>\<open>Q.ToAttrs()\<close>, then \<^verbatim>\<open>P.ToAttrsWithReference(Q, qAttrs)\<close> returns an attribute
  list equal to \<^verbatim>\<open>P.ToAttrs()\<close> at every index, and its flag is true if and only if
  \<^verbatim>\<open>P.Equals(Q)\<close> is: the two patterns hold the same bytes in every slot, a nil slot
  and a zero-length slot counting as the same.
\<close>

theorem ToAttrsWithReference_is_ToAttrs_and_Equals:
  assumes "length p = length q"
  shows "ToAttrsWithReference H p q (ToAttrs H q) =
           Inr (ToAttrs H p, \<forall>i<length p. bytes_Equal (p ! i) (q ! i))
         \<and> Equals p q = Inr (\<forall>i<length p. bytes_Equal (p ! i) (q ! i))"
  using assms ToAttrsWithReference_loop_char [of 0 p q H Map.empty True]
  by (simp add: ToAttrsWithReference_def ToAttrs_def Equals_char)

theorem ToAttrsWithReference_is_ToAttrs_and_Equals_witness:
  "ToAttrsWithReference length [Some [1], None, Some [2, 3]] [Some [1], None, Some [4, 5]]
       (ToAttrs length [Some [1], None, Some [4, 5]])
     = Inr (ToAttrs length [Some [1], None, Some [2, 3]], False)
   \<and> ToAttrsWithReference length [Some [1], None] [Some [1], Some []]
       (ToAttrs length [Some [1], Some []])
     = Inr (ToAttrs length [Some [1], None], True)"
  using ToAttrsWithReference_is_ToAttrs_and_Equals
      [of "[Some [1], None, Some [2, 3]]" "[Some [1], None, Some [4, 5]]" length]
    ToAttrsWithReference_is_ToAttrs_and_Equals
      [of "[Some [1], None]" "[Some [1], Some []]" length]
  by (simp add: All_less_Suc bytes_Equal_def)

section \<open>C5: ParseURI\<close>

lemma Split_not_Nil: "Split s sep \<noteq> []"
  by (induction s) (auto split: list.splits)

lemma Split_no_separator: "seg \<in> set (Split s sep) \<Longrightarrow> sep \<notin> set seg"
proof (induction s arbitrary: seg)
  case Nil
  then show ?case by simp
next
  case (Cons c cs)
  then show ?case
    by (cases "Split cs sep") (auto split: if_splits)
qed

lemma Split_join:
  "hd (Split s sep) @ concat (map (\<lambda>t. sep # t) (tl (Split s sep))) = s"
proof (induction s)
  case Nil
  then show ?case by simp
next
  case (Cons c cs)
  obtain w ws where "Split cs sep = w # ws"
    using Split_not_Nil [of cs sep] by (cases "Split cs sep") auto
  with Cons show ?case by auto
qed

lemma ParseURIFromPath_loop_char:
  "i + length rest = n \<Longrightarrow>
   (if (\<exists>s\<in>set rest. \<not> ValidateURIComponent s) \<or> ''*'' \<in> set (butlast rest)
    then \<exists>e. ParseURIFromPath_loop n i rest (comps, pre) = Inl e \<and> invalid_uri e
    else ParseURIFromPath_loop n i rest (comps, pre) =
           Inr (comps @ map uri_component_of (enumerate i (uri_body rest)),
                pre \<or> ends_in_star rest))"
proof (induction rest arbitrary: i comps pre)
  case Nil
  then show ?case by (simp add: uri_body_def ends_in_star_def)
next
  case (Cons name rest)
  have n: "Suc i + length rest = n" using Cons.prems by simp
  note IH = Cons.IH [OF n]
  show ?case
  proof (cases "ValidateURIComponent name")
    case False
    then show ?thesis by simp
  next
    case valid: True
    show ?thesis
    proof (cases "name = ''*''")
      case star: True
      show ?thesis
      proof (cases "rest = []")
        case True
        with star valid Cons.prems show ?thesis by (simp add: uri_body_def ends_in_star_def)
      next
        case False
        with star valid Cons.prems show ?thesis by auto
      qed
    next
      case nostar: False
      show ?thesis
      proof (cases "rest = []")
        case True
        with nostar valid show ?thesis
          by (simp add: uri_body_def uri_component_of_def ends_in_star_def)
      next
        case False
        then have body: "uri_body (name # rest) = name # uri_body rest"
          and star: "ends_in_star (name # rest) = ends_in_star rest"
          by (simp_all add: uri_body_def ends_in_star_def)
        from False nostar valid body star
          IH [of "comps @ [None]" pre]
          IH [of "comps @ [NewURIComponent name (of_nat i)]" pre]
        show ?thesis
          by (auto simp: uri_component_of_def split: if_splits)
      qed
    qed
  qed
qed

lemma filteredComponents_invalid:
  "(\<exists>s\<in>set (filteredComponents uri). \<not> ValidateURIComponent s) \<longleftrightarrow>
   ''$'' \<in> set (filteredComponents uri)"
proof -
  have "\<not> ValidateURIComponent s \<longleftrightarrow> s = ''$''" if "s \<noteq> []" for s
    using that by (cases s) (auto simp: ValidateURIComponent_def EndOfURISymbol_def)
  moreover have "s \<noteq> []" if "s \<in> set (filteredComponents uri)" for s
    using that by (simp add: filteredComponents_def)
  ultimately show ?thesis by blast
qed

text \<open>
  C5, as stated, fails on the code.  \<^verbatim>\<open>ValidateURIComponent\<close> rejects only the
  segment that is exactly \<^verbatim>\<open>$\<close>, and \<^verbatim>\<open>ParseURIFromPath\<close> compares whole segments
  with \<^verbatim>\<open>*\<close>.  So \<^verbatim>\<open>a$/b\<close>, in which \<^verbatim>\<open>$\<close> occurs, and \<^verbatim>\<open>a*b/c\<close>, in which \<^verbatim>\<open>*\<close>
  occurs before the final segment, are parsed without an error; and \<^verbatim>\<open>a/b*\<close>, which
  ends in \<^verbatim>\<open>*\<close>, gets the terminal \<^verbatim>\<open>$\<close> component.
\<close>

theorem ParseURI_character_counterexample:
  "CHR ''$'' \<in> set ''a$/b'' \<and>
   ParseURI ''a$/b'' = Inr [Some [0, 97, 36], Some [1, 98], Some [2, 36]] \<and>
   CHR ''*'' \<in> set (hd (Split ''a*b/c'' CHR ''/'')) \<and>
   ParseURI ''a*b/c'' = Inr [Some [0, 97, 42, 98], Some [1, 99], Some [2, 36]] \<and>
   last ''a/b*'' = CHR ''*'' \<and>
   ParseURI ''a/b*'' = Inr [Some [0, 97], Some [1, 98, 42], Some [2, 36]]"
  by (simp add: ParseURI_def ParseURIFromPath_def ValidateURIComponent_def EndOfURISymbol_def
      NewURIComponent_def)

text \<open>
  C5, amended: \<^verbatim>\<open>ParseURI(uri)\<close> splits on \<^verbatim>\<open>/\<close> and drops the empty segments.  It
  returns an invalid-URI error exactly when a segment is equal to \<^verbatim>\<open>$\<close> or a segment
  other than the final one is equal to \<^verbatim>\<open>*\<close>.  Otherwise it returns the path made of
  the segments in order, a final segment equal to \<^verbatim>\<open>*\<close> left out: a segment equal to
  \<^verbatim>\<open>+\<close> becomes a free (nil) slot, every other segment a bound component whose
  position byte is the (low byte of the) segment's index; and a terminal \<^verbatim>\<open>$\<close>
  component, at the position after the last segment, is appended if and only if the
  final segment is not equal to \<^verbatim>\<open>*\<close>.
\<close>

theorem ParseURI_segments:
  "(if ''$'' \<in> set (filteredComponents uri) \<or> ''*'' \<in> set (butlast (filteredComponents uri))
    then \<exists>e. ParseURI uri = Inl e \<and> invalid_uri e
    else ParseURI uri =
      Inr (map uri_component_of (enumerate 0 (uri_body (filteredComponents uri))) @
           (if ends_in_star (filteredComponents uri) then []
            else [NewURIComponent ''$'' (of_nat (length (filteredComponents uri)))])))"
proof -
  let ?segs = "filteredComponents uri"
  have unfold: "ParseURI uri = ParseURIFromPath ?segs"
    by (simp add: ParseURI_def filteredComponents_def)
  note loop = ParseURIFromPath_loop_char [of 0 ?segs "length ?segs" "[]" False, simplified]
  show ?thesis
  proof (cases "''$'' \<in> set ?segs \<or> ''*'' \<in> set (butlast ?segs)")
    case True
    then have "(\<exists>s\<in>set ?segs. \<not> ValidateURIComponent s) \<or> ''*'' \<in> set (butlast ?segs)"
      using filteredComponents_invalid [of uri] by blast
    with loop obtain e where
      "ParseURIFromPath_loop (length ?segs) 0 ?segs ([], False) = Inl e" "invalid_uri e"
      by (auto split: if_splits)
    with True unfold show ?thesis by (simp add: ParseURIFromPath_def)
  next
    case False
    then have "\<not> ((\<exists>s\<in>set ?segs. \<not> ValidateURIComponent s) \<or> ''*'' \<in> set (butlast ?segs))"
      using filteredComponents_invalid [of uri] by blast
    with loop have
      "ParseURIFromPath_loop (length ?segs) 0 ?segs ([], False) =
         Inr (map uri_component_of (enumerate 0 (uri_body ?segs)), ends_in_star ?segs)"
      by (auto split: if_splits)
    with False unfold show ?thesis
      by (simp add: ParseURIFromPath_def EndOfURISymbol_def)
  qed
qed

theorem ParseURI_segments_witness:
  "ParseURI ''a/b/c'' = Inr [Some [0, 97], Some [1, 98], Some [2, 99], Some [3, 36]] \<and>
   ParseURI ''/a//+/c/*'' = Inr [Some [0, 97], None, Some [2, 99]] \<and>
   (\<exists>e. ParseURI ''a/*/c'' = Inl e \<and> invalid_uri e) \<and>
   (\<exists>e. ParseURI ''a/$'' = Inl e \<and> invalid_uri e)"
  using ParseURI_segments [of "''a/b/c''"] ParseURI_segments [of "''/a//+/c/*''"]
    ParseURI_segments [of "''a/*/c''"] ParseURI_segments [of "''a/$''"]
  by (simp add: filteredComponents_def uri_body_def ends_in_star_def uri_component_of_def
      NewURIComponent_def enumerate_eq_zip upt_rec)

section \<open>C6: the bounds of the day component\<close>

lemma Uint16_PutUint16: "Uint16 (ucast v) (ucast (drop_bit 8 v)) = (v :: uint16)"
  unfolding Uint16_def
  by (rule bit_word_eqI) (auto simp: bit_simps)

lemma Quantity_NewTimeComponent: "Quantity (NewTimeComponent q pos) = Inr q"
  by (simp add: Quantity_def NewTimeComponent_def PutUint16_def slot_len_def Uint16_PutUint16)

lemma ParseTimeFromPath_loop_extends:
  "ParseTimeFromPath_loop i rest comps = Inr res \<Longrightarrow> \<exists>ext. res = comps @ ext"
proof (induction rest arbitrary: i comps)
  case Nil
  then show ?case by simp
next
  case (Cons q rest)
  then show ?case
    by (fastforce simp: ebind_def split: sum.splits if_splits)
qed

lemma uint16_in_1_6:
  assumes "1 \<le> (c::uint16)" "c \<le> 6" shows "c \<in> {1, 2, 3, 4, 5, 6}"
proof -
  from assms have "1 \<le> unat c" "unat c \<le> 6" by (simp_all add: word_le_nat_alt)
  then have "unat c \<in> {1, 2, 3, 4, 5, 6}" by auto
  then have "(of_nat (unat c) :: uint16) \<in> of_nat ` {1, 2, 3, 4, 5, 6}" by blast
  then show ?thesis by simp
qed

lemma uint16_in_1_12:
  assumes "1 \<le> (c::uint16)" "c \<le> 12" shows "c \<in> {1, 2, 3, 4, 5, 6, 7, 8, 9, 10, 11, 12}"
proof -
  from assms have "1 \<le> unat c" "unat c \<le> 12" by (simp_all add: word_le_nat_alt)
  then have "unat c \<in> {1, 2, 3, 4, 5, 6, 7, 8, 9, 10, 11, 12}" by simp arith
  then have "(of_nat (unat c) :: uint16) \<in> of_nat ` {1, 2, 3, 4, 5, 6, 7, 8, 9, 10, 11, 12}" by blast
  then show ?thesis by simp
qed

lemma ParseTimeFromPath_first_three:
  assumes "ParseTimeFromPath (y # m # k # others) = Inr prefix"
  shows "2015 \<le> y \<and> y \<le> 2050 \<and> 1 \<le> m \<and> m \<le> 12 \<and> 1 \<le> k \<and> k \<le> 6 \<and>
         (\<exists>ext. prefix = [NewTimeComponent y 0, NewTimeComponent m 1, NewTimeComponent k 2] @ ext)"
proof -
  from assms have loop: "ParseTimeFromPath_loop 0 (y # m # k # others) [] = Inr prefix"
    by (simp add: ParseTimeFromPath_def split: if_splits)
  have b0: "TimeComponentBounds cs 0 = Inr (2015, 2050)" for cs
    by (simp add: TimeComponentBounds_def TimeComponentPositionYear_def MinYear_def MaxYear_def)
  have b1: "TimeComponentBounds cs 1 = Inr (1, 12)" for cs
    by (simp add: TimeComponentBounds_def TimeComponentPositionYear_def
        TimeComponentPositionMonth_def MinMonth_def MaxMonth_def)
  have b2: "TimeComponentBounds cs 2 = Inr (1, 6)" for cs
    by (simp add: TimeComponentBounds_def TimeComponentPositionYear_def
        TimeComponentPositionMonth_def TimeComponentPositionFiveDays_def
        MinFiveDays_def MaxFiveDays_def)
  from loop have y: "2015 \<le> y \<and> y \<le> 2050"
    and l1: "ParseTimeFromPath_loop 1 (m # k # others) [NewTimeComponent y 0] = Inr prefix"
    by (auto simp: ebind_def ValidateTimeComponent_def b0 split: if_splits)
  from l1 have m: "1 \<le> m \<and> m \<le> 12"
    and l2: "ParseTimeFromPath_loop 2 (k # others) [NewTimeComponent y 0, NewTimeComponent m 1] = Inr prefix"
    by (auto simp: ebind_def ValidateTimeComponent_def b1 numeral_2_eq_2 split: if_splits)
  from l2 have k: "1 \<le> k \<and> k \<le> 6"
    and l3: "ParseTimeFromPath_loop 3 others
       [NewTimeComponent y 0, NewTimeComponent m 1, NewTimeComponent k 2] = Inr prefix"
    by (auto simp: ebind_def ValidateTimeComponent_def b2 numeral_3_eq_3 numeral_2_eq_2 split: if_splits)
  from ParseTimeFromPath_loop_extends [OF l3] y m k show ?thesis by blast
qed


text \<open>
  C6: for every valid time-path prefix holding at least the year, month and five-day
  components (a path that \<^verbatim>\<open>ParseTimeFromPath\<close> returns for three or more
  quantities), \<^verbatim>\<open>TimeComponentBounds\<close> at the day position returns the range
  \<open>5(k - 1) + 1 .. 5k\<close> when the five-day index \<open>k\<close> is in 1..5, and for \<open>k = 6\<close> the
  range from 26 to the month's natural end: 31 for January, March, May, July, August,
  October and December, 30 for April, June, September and November, and for February
  29 if the year is divisible by 4 and (not by 100 or by 400), otherwise 28.
\<close>

theorem TimeComponentBounds_day:
  assumes "ParseTimeFromPath qs = Inr prefix" and "3 \<le> length qs"
  shows "\<exists>lo hi. TimeComponentBounds prefix TimeComponentPositionDay = Inr (lo, hi) \<and>
           (unat lo, unat hi) = spec_day_bounds (unat (qs ! 0)) (unat (qs ! 1)) (unat (qs ! 2)) \<and>
           unat (qs ! 2) \<in> {1..6}"
proof -
  from assms(2) obtain y m k others where qs: "qs = y # m # k # others"
    by (cases qs; cases "tl qs"; cases "tl (tl qs)") auto
  from ParseTimeFromPath_first_three [OF assms(1) [unfolded qs]] obtain ext where
    m: "1 \<le> m" "m \<le> 12" and k: "1 \<le> k" "k \<le> 6"
    and prefix: "prefix = [NewTimeComponent y 0, NewTimeComponent m 1, NewTimeComponent k 2] @ ext"
    by blast
  have pos: "TimeComponentPositionDay \<noteq> TimeComponentPositionYear"
    "TimeComponentPositionDay \<noteq> TimeComponentPositionMonth"
    "TimeComponentPositionDay \<noteq> TimeComponentPositionFiveDays"
    by (simp_all add: TimeComponentPositionDay_def TimeComponentPositionYear_def
        TimeComponentPositionMonth_def TimeComponentPositionFiveDays_def)
  have idx: "index prefix (unat TimeComponentPositionFiveDays) = Inr (NewTimeComponent k 2)"
    "index prefix (unat TimeComponentPositionMonth) = Inr (NewTimeComponent m 1)"
    "index prefix (unat TimeComponentPositionYear) = Inr (NewTimeComponent y 0)"
    by (simp_all add: prefix index_def TimeComponentPositionFiveDays_def
        TimeComponentPositionMonth_def TimeComponentPositionYear_def)
  have other: "TimeComponentBounds prefix TimeComponentPositionDay = Inr (5 * (k - 1) + 1, 5 * k)"
    if "k \<noteq> 6"
    using that
    by (simp add: TimeComponentBounds_def pos idx ebind_def Quantity_NewTimeComponent)
  have six: "TimeComponentBounds prefix TimeComponentPositionDay =
      (if m \<in> {1, 3, 5, 7, 8, 10, 12} then Inr (26, 31)
       else if m \<in> {4, 6, 9, 11} then Inr (26, 30)
       else if m = 2 then
         (if y mod 4 = 0 \<and> (y mod 100 \<noteq> 0 \<or> y mod 400 = 0) then Inr (26, 29)
          else Inr (26, 28))
       else Inr (5 * (k - 1) + 1, 5 * k))"
    if "k = 6"
    unfolding TimeComponentBounds_def
    by (simp only: pos if_False idx ebind_def sum.case Quantity_NewTimeComponent that if_True simp_thms
        MaxDay_def MaxDayShortMonth_def MaxDayFebruary_def MaxDayFebruaryLeapYear_def)
  have leap: "(y mod 4 = 0 \<and> (y mod 100 \<noteq> 0 \<or> y mod 400 = 0)) \<longleftrightarrow>
      (unat y mod 4 = 0 \<and> (unat y mod 100 \<noteq> 0 \<or> unat y mod 400 = 0))"
  proof -
    have "(w = 0) = (unat w = 0)" for w :: uint16 by (simp add: unat_eq_zero)
    then show ?thesis by (simp add: unat_mod)
  qed
  from uint16_in_1_6 [OF k]
  consider "k = 1" | "k = 2" | "k = 3" | "k = 4" | "k = 5" | "k = 6" by blast
  then show ?thesis
  proof cases
    case 1 with other show ?thesis by (simp add: qs spec_day_bounds_def)
  next
    case 2 with other show ?thesis by (simp add: qs spec_day_bounds_def)
  next
    case 3 with other show ?thesis by (simp add: qs spec_day_bounds_def)
  next
    case 4 with other show ?thesis by (simp add: qs spec_day_bounds_def)
  next
    case 5 with other show ?thesis by (simp add: qs spec_day_bounds_def)
  next
    case 6
    note s = six [OF 6]
    from uint16_in_1_12 [OF m]
    consider "m = 1" | "m = 2" | "m = 3" | "m = 4" | "m = 5" | "m = 6" | "m = 7" | "m = 8"
      | "m = 9" | "m = 10" | "m = 11" | "m = 12" by blast
    then show ?thesis
    proof cases
      case 1 with s 6 show ?thesis by (simp add: qs spec_day_bounds_def)
    next
      case 2 with s 6 leap show ?thesis by (simp add: qs spec_day_bounds_def)
    next
      case 3 with s 6 show ?thesis by (simp add: qs spec_day_bounds_def)
    next
      case 4 with s 6 show ?thesis by (simp add: qs spec_day_bounds_def)
    next
      case 5 with s 6 show ?thesis by (simp add: qs spec_day_bounds_def)
    next
      case 6 with s \<open>k = 6\<close> show ?thesis by (simp add: qs spec_day_bounds_def)
    next
      case 7 with s 6 show ?thesis by (simp add: qs spec_day_bounds_def)
    next
      case 8 with s 6 show ?thesis by (simp add: qs spec_day_bounds_def)
    next
      case 9 with s 6 show ?thesis by (simp add: qs spec_day_bounds_def)
    next
      case 10 with s 6 show ?thesis by (simp add: qs spec_day_bounds_def)
    next
      case 11 with s 6 show ?thesis by (simp add: qs spec_day_bounds_def)
    next
      case 12 with s 6 show ?thesis by (simp add: qs spec_day_bounds_def)
    qed
  qed
qed

lemma ParseTimeFromPath_2016_2_6:
  "ParseTimeFromPath [2016, 2, 6] =
     Inr [NewTimeComponent 2016 0, NewTimeComponent 2 1, NewTimeComponent 6 2]"
  by (simp add: ParseTimeFromPath_def MaxTimeLength_def ebind_def ValidateTimeComponent_def
      TimeComponentBounds_def TimeComponentPositionYear_def TimeComponentPositionMonth_def
      TimeComponentPositionFiveDays_def MinYear_def MaxYear_def MinMonth_def MaxMonth_def
      MinFiveDays_def MaxFiveDays_def)

theorem TimeComponentBounds_day_witness:
  "ParseTimeFromPath [2016, 2, 6] =
     Inr [NewTimeComponent 2016 0, NewTimeComponent 2 1, NewTimeComponent 6 2] \<and>
   TimeComponentBounds [NewTimeComponent 2016 0, NewTimeComponent 2 1, NewTimeComponent 6 2]
     TimeComponentPositionDay = Inr (26, 29) \<and>
   spec_day_bounds 2016 2 6 = (26, 29)"
proof -
  note w = TimeComponentBounds_day [OF ParseTimeFromPath_2016_2_6]
  have "TimeComponentBounds [NewTimeComponent 2016 0, NewTimeComponent 2 1, NewTimeComponent 6 2]
     TimeComponentPositionDay = Inr (26, 29)"
    using w
    by (simp add: TimeComponentBounds_def TimeComponentPositionYear_def
        TimeComponentPositionMonth_def TimeComponentPositionFiveDays_def
        TimeComponentPositionDay_def index_def ebind_def Quantity_NewTimeComponent
        MaxDayFebruaryLeapYear_def)
  then show ?thesis using ParseTimeFromPath_2016_2_6 by (simp add: spec_day_bounds_def)
qed

section \<open>C8: encoding a path into a pattern and decoding it\<close>

lemma store_all_char:
  "i \<le> length into \<Longrightarrow> store_all i up into =
     (if i + length up \<le> length into
      then Inr (take i into @ up @ drop (i + length up) into)
      else Inl PanicIndexOutOfRange)"
proof (induction up arbitrary: i into)
  case Nil
  then show ?case by (simp add: store_def)
next
  case (Cons c up)
  show ?case
  proof (cases "i < length into")
    case False
    then show ?thesis by (simp add: store_def)
  next
    case True
    then have "take (Suc i) (into[i := c]) = take i into @ [c]"
      by (simp add: take_Suc_conv_app_nth)
    with True show ?thesis by (simp add: store_def Cons.IH)
  qed
qed

lemma clear_from_char:
  "j + k = length into \<Longrightarrow> clear_from j k into = take j into @ replicate k None"
proof (induction k arbitrary: j into)
  case 0
  then show ?case by simp
next
  case (Suc k)
  then have "j < length into" by simp
  then have "take (Suc j) (into[j := None]) = take j into @ [None]"
    by (simp add: take_Suc_conv_app_nth)
  with Suc show ?case by (simp add: replicate_app_Cons_same)
qed

lemma EncodeURIPathInto_char:
  "EncodeURIPathInto up into =
     (if length up \<le> length into
      then Inr (up @ replicate (length into - length up) None)
      else Inl PanicIndexOutOfRange)"
  by (simp add: EncodeURIPathInto_def store_all_char clear_from_char)

lemma last_non_nil_le: "last_non_nil xs n \<le> n"
  by (induction n) auto

lemma last_non_nil_append_nils:
  "last_non_nil (ys @ replicate k None) (length ys + k) = last_non_nil ys (length ys)"
proof (induction k)
  case 0
  then show ?case by simp
next
  case (Suc k)
  have "replicate (Suc k) (None :: slot) ! k = None"
    by (rule nth_replicate) simp
  then have "(ys @ replicate (Suc k) None) ! (length ys + k) = None"
    by (simp add: nth_append del: replicate_Suc)
  moreover have "last_non_nil (ys @ replicate (Suc k) None) (length ys + k) =
                 last_non_nil (ys @ replicate k None) (length ys + k)"
  proof -
    have "last_non_nil (xs @ zs) n = last_non_nil xs n" if "n \<le> length xs" for xs zs :: Pattern and n
      using that by (induction n) (auto simp: nth_append)
    from this [of "length ys + k" "ys @ replicate k None" "[None]"]
    show ?thesis by (simp add: replicate_append_same)
  qed
  ultimately show ?case using Suc by simp
qed

lemma last_non_nil_full:
  "ys = [] \<or> last ys \<noteq> None \<Longrightarrow> last_non_nil ys (length ys) = length ys"
  by (cases ys rule: rev_cases) auto

lemma Decode_after_nils:
  "ys = [] \<or> last ys \<noteq> None \<Longrightarrow> DecodeURIPathFrom (ys @ replicate k None) = ys"
  using last_non_nil_append_nils [of ys k]
  by (simp add: DecodeURIPathFrom_def last_non_nil_full)


lemma Decode_time_after_nils:
  "ys = [] \<or> last ys \<noteq> None \<Longrightarrow> DecodeTimePathFrom (ys @ replicate k None) = ys"
  using last_non_nil_append_nils [of ys k]
  by (simp add: DecodeTimePathFrom_def last_non_nil_full)

text \<open>
  C8, as stated, fails on the code.  \<^verbatim>\<open>DecodeURIPathFrom\<close> drops every trailing nil
  slot, so a URI path that ends in a free component does not come back:
  \<^verbatim>\<open>ParseURI("a/+/*")\<close> is the path \<open>[a@0, nil]\<close>, and decoding its encoding gives
  \<open>[a@0]\<close>.  And \<^verbatim>\<open>EncodeTimePathInto\<close> leaves the slots after the path as they are,
  so in a six-slot buffer that held a longer path the old components are decoded
  with the new ones.
\<close>

theorem Decode_Encode_counterexample:
  "ParseURI ''a/+/*'' = Inr [Some [0, 97], None] \<and>
   EncodeURIPathInto [Some [0, 97], None] [None, None, None] = Inr [Some [0, 97], None, None] \<and>
   DecodeURIPathFrom [Some [0, 97], None, None] = [Some [0, 97]] \<and>
   EncodeTimePathInto [NewTimeComponent 2019 0]
       [NewTimeComponent 2017 0, NewTimeComponent 12 1, None, None, None, None]
     = Inr [NewTimeComponent 2019 0, NewTimeComponent 12 1, None, None, None, None] \<and>
   DecodeTimePathFrom [NewTimeComponent 2019 0, NewTimeComponent 12 1, None, None, None, None]
     = [NewTimeComponent 2019 0, NewTimeComponent 12 1]"
  by (simp add: ParseURI_def ParseURIFromPath_def ValidateURIComponent_def EndOfURISymbol_def
      NewURIComponent_def EncodeURIPathInto_def EncodeTimePathInto_def store_def
      DecodeURIPathFrom_def DecodeTimePathFrom_def NewTimeComponent_def
      numeral_2_eq_2 numeral_3_eq_3 eval_nat_numeral)

text \<open>
  C8, amended: for every URI path \<open>up\<close> that is empty or ends in a bound (non-nil)
  component and every pattern buffer at least as long as \<open>up\<close>,
  \<^verbatim>\<open>DecodeURIPathFrom\<close> applied to the buffer after \<^verbatim>\<open>EncodeURIPathInto(up, buffer)\<close>
  returns \<open>up\<close>; and for every time path \<open>tp\<close> of length at most 6 that is empty or
  ends in a non-nil component, \<^verbatim>\<open>DecodeTimePathFrom\<close> applied to a six-slot buffer
  whose slots from index \<open>len(tp)\<close> on are nil (a fresh buffer is such), after
  \<^verbatim>\<open>EncodeTimePathInto(tp, buffer)\<close>, returns \<open>tp\<close>.
\<close>

theorem Decode_Encode_roundtrip:
  assumes "up = [] \<or> last up \<noteq> None" and "length up \<le> length buffer"
    and "tp = [] \<or> last tp \<noteq> None" and "length tp \<le> 6" and "length tbuf = 6"
    and "drop (length tp) tbuf = replicate (6 - length tp) None"
  shows "(\<exists>b. EncodeURIPathInto up buffer = Inr b \<and> DecodeURIPathFrom b = up) \<and>
         (\<exists>b. EncodeTimePathInto tp tbuf = Inr b \<and> DecodeTimePathFrom b = tp)"
proof -
  have "EncodeURIPathInto up buffer = Inr (up @ replicate (length buffer - length up) None)"
    using assms(2) by (simp add: EncodeURIPathInto_char)
  moreover have "DecodeURIPathFrom (up @ replicate (length buffer - length up) None) = up"
    using assms(1) by (rule Decode_after_nils)
  moreover have "EncodeTimePathInto tp tbuf = Inr (tp @ replicate (6 - length tp) None)"
    using assms(4,5,6) by (simp add: EncodeTimePathInto_def store_all_char)
  moreover have "DecodeTimePathFrom (tp @ replicate (6 - length tp) None) = tp"
    using assms(3) by (rule Decode_time_after_nils)
  ultimately show ?thesis by simp
qed

theorem Decode_Encode_roundtrip_witness:
  "DecodeURIPathFrom [Some [0, 97], None, Some [2, 99], None, None] = [Some [0, 97], None, Some [2, 99]]
   \<and> EncodeURIPathInto [Some [0, 97], None, Some [2, 99]] [Some [7], Some [8], None, Some [9], None]
       = Inr [Some [0, 97], None, Some [2, 99], None, None]
   \<and> EncodeTimePathInto [NewTimeComponent 2019 0, NewTimeComponent 7 1]
        [None, None, None, None, None, None]
       = Inr [NewTimeComponent 2019 0, NewTimeComponent 7 1, None, None, None, None]
   \<and> DecodeTimePathFrom [NewTimeComponent 2019 0, NewTimeComponent 7 1, None, None, None, None]
       = [NewTimeComponent 2019 0, NewTimeComponent 7 1]"
  using Decode_Encode_roundtrip [of "[Some [0, 97], None, Some [2, 99]]"
      "[Some [7], Some [8], None, Some [9], None]"
      "[NewTimeComponent 2019 0, NewTimeComponent 7 1]" "[None, None, None, None, None, None]"]
  by (simp add: EncodeURIPathInto_def EncodeTimePathInto_def store_def
      DecodeURIPathFrom_def DecodeTimePathFrom_def NewTimeComponent_def
      numeral_2_eq_2 numeral_3_eq_3 eval_nat_numeral)

section \<open>C9: the bytes of TimeToBytes\<close>

lemma TimeToBytes_loop_char:
  "\<forall>c\<in>set tp. slot_len c = 3 \<Longrightarrow> start + 3 * length tp \<le> length buf \<Longrightarrow>
   TimeToBytes_loop tp start buf =
     Inr (take start buf @ concat (map slot_bytes tp) @ drop (start + 3 * length tp) buf)"
proof (induction tp arbitrary: start buf)
  case Nil
  then show ?case by simp
next
  case (Cons c tp)
  from Cons.prems have len: "length (slot_bytes c) = 3" and rest: "\<forall>c\<in>set tp. slot_len c = 3"
    and fit: "start + 3 \<le> length buf"
    by (simp_all add: slot_len_def)
  let ?buf = "take start buf @ slot_bytes c @ drop (start + 3) buf"
  have copy: "copy_at buf start 3 (slot_bytes c) = Inr ?buf"
    using len fit by (simp add: copy_at_def)
  have l: "length ?buf = length buf" using len fit by simp
  have "start + 3 + 3 * length tp \<le> length ?buf" using Cons.prems(2) l by simp
  from Cons.IH [OF rest this]
  have "TimeToBytes_loop tp (start + 3) ?buf =
        Inr (take (start + 3) ?buf @ concat (map slot_bytes tp) @
             drop (start + 3 + 3 * length tp) ?buf)" .
  moreover have "take (start + 3) ?buf = take start buf @ slot_bytes c"
    using len fit by simp
  moreover have "drop (start + 3 + 3 * length tp) ?buf = drop (start + 3 * length (c # tp)) buf"
  proof -
    have e: "start + 3 * length (c # tp) = start + 3 + 3 * length tp" by simp
    show ?thesis unfolding e using len fit by (simp add: ac_simps)
  qed
  ultimately show ?case using copy by (simp add: ebind_def)
qed

text \<open>
  C9 says that \<^verbatim>\<open>TimeToBytes\<close> returns the count byte \<open>n\<close> followed by exactly \<open>3n\<close>
  bytes of components, \<open>1 + 3n\<close> bytes in all.  The code does write the count and
  three bytes for each component, but it allocates \<^verbatim>\<open>1 + (2*length + 1)\<close> bytes with
  \<open>length = 3n\<close>: for every time path of \<open>n > 0\<close> three-byte components the result is
  the count, the \<open>3n\<close> component bytes and then \<open>3n + 1\<close> zero bytes, \<open>6n + 2\<close> bytes in
  all.  Only for \<open>n = 0\<close> is the result the single count byte.
\<close>

theorem TimeToBytes_padding:
  assumes "\<forall>c\<in>set tp. slot_len c = 3"
  shows "TimeToBytes tp =
           Inr (of_nat (length tp) # concat (map slot_bytes tp) @
                (if tp = [] then [] else replicate (3 * length tp + 1) 0))"
proof (cases "tp = []")
  case True
  then show ?thesis by (simp add: TimeToBytes_def)
next
  case False
  have sum: "sum_list (map slot_len tp) = 3 * length tp"
    using assms by (induction tp) auto
  let ?buf = "(replicate (1 + (2 * (3 * length tp) + 1)) (0::byte))[0 := of_nat (length tp)]"
  have buf: "?buf = of_nat (length tp) # replicate (6 * length tp + 1) 0"
    by simp
  have "TimeToBytes tp = TimeToBytes_loop tp 1 ?buf"
    using False sum by (simp add: TimeToBytes_def Let_def)
  also have "\<dots> = Inr (take 1 ?buf @ concat (map slot_bytes tp) @ drop (1 + 3 * length tp) ?buf)"
    by (rule TimeToBytes_loop_char [OF assms]) simp
  also have "drop (1 + 3 * length tp) ?buf = replicate (3 * length tp + 1) 0"
  proof -
    have "drop (3 * length tp) (replicate (6 * length tp + 1) (0::byte)) =
          replicate (6 * length tp + 1 - 3 * length tp) 0"
      by (rule drop_replicate)
    moreover have "6 * length tp + 1 - 3 * length tp = 3 * length tp + 1" by simp
    ultimately show ?thesis unfolding buf by (simp del: replicate_Suc)
  qed
  finally show ?thesis using False by (simp add: buf)
qed

theorem TimeToBytes_padding_witness:
  "TimeToBytes [NewTimeComponent 2019 TimeComponentPositionYear] = Inr [1, 0, 227, 7, 0, 0, 0, 0]"
  using TimeToBytes_padding [of "[NewTimeComponent 2019 TimeComponentPositionYear]"]
  by (simp add: NewTimeComponent_def slot_len_def PutUint16_def TimeComponentPositionYear_def
      numeral_3_eq_3)

section \<open>C7: marshalling a pattern and reading it back\<close>

lemma Uint32_PutUint32:
  "Uint32 (ucast v) (ucast (drop_bit 8 v)) (ucast (drop_bit 16 v)) (ucast (drop_bit 24 v)) = (v :: uint32)"
  unfolding Uint32_def
proof (rule bit_word_eqI)
  fix n assume "n < LENGTH(32)"
  then consider "n < 8" | "8 \<le> n" "n < 16" | "16 \<le> n" "n < 24" | "24 \<le> n" "n < 32"
    by fastforce
  then show "bit (or (ucast (ucast v :: byte) :: uint32)
        (or (push_bit 8 (ucast (ucast (drop_bit 8 v) :: byte) :: uint32))
          (or (push_bit 16 (ucast (ucast (drop_bit 16 v) :: byte) :: uint32))
            (push_bit 24 (ucast (ucast (drop_bit 24 v) :: byte) :: uint32))))) n = bit v n"
    by cases (auto simp: bit_simps)
qed

lemma unmarshalPrefixLength_PutUint32:
  "unmarshalPrefixLength (PutUint32 w @ rest) = Inr (unat w, rest)"
  by (simp add: unmarshalPrefixLength_def PutUint32_def Uint32_PutUint32)

lemma unat_of_nat32: "n < 2 ^ 32 \<Longrightarrow> unat (of_nat n :: uint32) = n"
  by (simp add: unat_of_nat)

lemma Marshal_loop_char:
  "Marshal_loop p i k buf = buf @ concat (map (wire_entry p) [i..<i + k])"
proof (induction k arbitrary: i buf)
  case 0
  then show ?case by simp
next
  case (Suc k)
  have "[i..<i + Suc k] = i # [Suc i..<Suc i + k]"
    by (simp add: upt_conv_Cons)
  then show ?case
    by (simp add: Suc.IH wire_entry_def marshalAppendWithLength_def marshalAppendLength_def)
qed

lemma Marshal_wire_form: "Marshal p = wire_form p"
  by (simp add: Marshal_def Let_def Marshal_loop_char wire_form_def newMessageBuffer_def
      MarshalledTypePattern_def marshalAppendLength_def)

lemma last_nonempty_le: "last_nonempty p n \<le> n"
  by (induction n) auto

lemma last_nonempty_last:
  "last_nonempty p n = 0 \<or> slot_len (p ! (last_nonempty p n - 1)) \<noteq> 0"
  by (induction n) auto

lemma last_nonempty_after:
  "last_nonempty p n \<le> t \<Longrightarrow> t < n \<Longrightarrow> slot_len (p ! t) = 0"
  by (induction n) (auto simp: less_Suc_eq split: if_splits)

lemma length_fill: "length (fill p j k pat) = length pat"
  by (induction k arbitrary: j pat) auto

lemma fill_nth:
  "t < length pat \<Longrightarrow>
   fill p j k pat ! t =
     (if j \<le> t \<and> t < j + k \<and> slot_len (p ! t) \<noteq> 0 then Some (slot_bytes (p ! t)) else pat ! t)"
proof (induction k arbitrary: j pat)
  case 0
  then show ?case by auto
next
  case (Suc k)
  show ?case
  proof (cases "t = j")
    case True
    then have jt: "j = t" by simp
    show ?thesis using Suc.prems unfolding jt by (simp add: Suc.IH)
  next
    case False
    then have "j \<le> t \<longleftrightarrow> Suc j \<le> t" by auto
    with False Suc.prems show ?thesis by (simp add: Suc.IH)
  qed
qed

lemma Unmarshal_loop_entries:
  assumes "K \<le> length pat" and "K < 2 ^ 32" and "\<forall>t<K. slot_len (p ! t) < 2 ^ 32"
    and "K = 0 \<or> slot_len (p ! (K - 1)) \<noteq> 0"
  shows "j + k = K \<Longrightarrow> i < int j \<Longrightarrow> (k = 0 \<longrightarrow> i = int K - 1) \<Longrightarrow> length pat' = length pat \<Longrightarrow>
         Unmarshal_loop i (int K - 1) (concat (map (wire_entry p) [j..<j + k])) pat' =
           Inr (fill p j k pat')"
proof (induction k arbitrary: i j pat')
  case 0
  then show ?case by (simp add: Unmarshal_loop.simps)
next
  case (Suc k)
  have jK: "j < K" using Suc.prems(1) by simp
  have upt: "[j..<j + Suc k] = j # [Suc j..<Suc j + k]" by (simp add: upt_conv_Cons)
  have split: "concat (map (wire_entry p) [j..<j + Suc k]) =
      wire_entry p j @ concat (map (wire_entry p) [Suc j..<Suc j + k])"
    by (simp only: upt list.map concat.simps)
  show ?case
  proof (cases "slot_len (p ! j) = 0")
    case True
    have "k \<noteq> 0"
    proof
      assume "k = 0"
      with Suc.prems(1) have "j = K - 1" "K \<noteq> 0" by simp_all
      with assms(4) True show False by simp
    qed
    moreover have "wire_entry p j = []" using True by (simp add: wire_entry_def)
    moreover have "Unmarshal_loop i (int K - 1)
        (concat (map (wire_entry p) [Suc j..<Suc j + k])) pat' = Inr (fill p (Suc j) k pat')"
      using Suc.prems \<open>k \<noteq> 0\<close> by (intro Suc.IH) auto
    ultimately show ?thesis using True by (simp only: split append_Nil fill.simps if_False simp_thms)
  next
    case False
    let ?bs = "slot_bytes (p ! j)"
    let ?rest = "concat (map (wire_entry p) [Suc j..<Suc j + k])"
    have buf: "concat (map (wire_entry p) [j..<j + Suc k]) =
      PutUint32 (of_nat j) @ (PutUint32 (of_nat (length ?bs)) @ ?bs @ ?rest)"
      using False unfolding split by (simp add: wire_entry_def slot_len_def)
    have ne: "i \<noteq> int K - 1" using Suc.prems(2) jK by simp
    have j32: "unat (of_nat j :: uint32) = j" using jK assms(2) by (simp add: unat_of_nat32)
    have l32: "unat (of_nat (length ?bs) :: uint32) = length ?bs"
      using jK assms(3) by (simp add: unat_of_nat32 slot_len_def)
    have lpos: "length ?bs \<noteq> 0" using False by (simp add: slot_len_def)
    have rd: "unmarshalPrefixWithLength (PutUint32 (of_nat (length ?bs)) @ ?bs @ ?rest) =
              Inr (Some ?bs, ?rest)"
      using lpos by (simp add: unmarshalPrefixWithLength_def unmarshalPrefixLength_PutUint32
          ebind_def l32)
    have st: "store pat' j (Some ?bs) = Inr (pat'[j := Some ?bs])"
      using jK assms(1) Suc.prems(4) by (simp add: store_def)
    have step: "Unmarshal_loop i (int K - 1) (concat (map (wire_entry p) [j..<j + Suc k])) pat' =
          Unmarshal_loop (int j) (int K - 1) ?rest (pat'[j := Some ?bs])"
      unfolding buf
      by (subst Unmarshal_loop.simps)
         (simp only: ne if_False unmarshalPrefixLength_PutUint32 j32 rd st sum.case prod.case)
    have "Unmarshal_loop (int j) (int K - 1) ?rest (pat'[j := Some ?bs]) =
          Inr (fill p (Suc j) k (pat'[j := Some ?bs]))"
      using Suc.prems by (intro Suc.IH) auto
    with step False show ?thesis by simp
  qed
qed


lemma Unmarshal_wire_form:
  assumes "length p < 2 ^ 32" and "\<forall>s\<in>set p. slot_len s < 2 ^ 32"
  shows "Unmarshal (wire_form p) =
           Inr (Some (fill p 0 (last_nonempty p (length p)) (replicate (length p) None)))"
proof -
  let ?n = "length p"
  let ?K = "last_nonempty p ?n"
  let ?entries = "concat (map (wire_entry p) [0..<0 + ?K])"
  have Kn: "?K \<le> ?n" by (rule last_nonempty_le)
  have n32: "unat (of_nat ?n :: uint32) = ?n" using assms(1) by (simp add: unat_of_nat32)
  have K32: "unat (of_nat ?K :: uint32) = ?K" using assms(1) Kn by (simp add: unat_of_nat32)
  have slots: "\<forall>t<?K. slot_len (p ! t) < 2 ^ 32" using assms(2) Kn by simp
  have loop: "Unmarshal_loop (- 1) (int ?K - 1) ?entries (replicate ?n None) =
        Inr (fill p 0 ?K (replicate ?n None))"
    by (rule Unmarshal_loop_entries [where pat = "replicate ?n None"])
       (use Kn assms(1) slots last_nonempty_last [of p ?n] in auto)
  have "Unmarshal (wire_form p) =
        ebind (unmarshalPrefixLength (PutUint32 (of_nat ?n) @ PutUint32 (of_nat ?K) @ ?entries))
          (\<lambda>(patternLength, buf).
             let pattern = replicate patternLength None in
             ebind (unmarshalPrefixLength buf) (\<lambda>(lasti, buf).
               ebind (Unmarshal_loop (- 1) (int lasti - 1) buf pattern) (\<lambda>pattern.
                 Inr (Some pattern))))"
    by (simp add: Unmarshal_def wire_form_def checkMessageType_def MarshalledTypePattern_def
        ebind_def)
  also have "\<dots> = Inr (Some (fill p 0 ?K (replicate ?n None)))"
    by (simp only: unmarshalPrefixLength_PutUint32 ebind_def sum.case prod.case Let_def
        n32 K32 loop)
  finally show ?thesis .
qed

text \<open>
  C7, amended: for every pattern \<open>P\<close> of fewer than \<open>2^32\<close> slots, each of fewer than
  \<open>2^32\<close> bytes, \<^verbatim>\<open>Unmarshal\<close> applied to the output of \<^verbatim>\<open>P.Marshal()\<close> succeeds and
  rebuilds a pattern of the same length that is slot-wise byte-equal to \<open>P\<close>.  The wire
  form (of every pattern) is the type byte \<open>0x01\<close>, the pattern length, the index one
  past the last non-empty slot, and each non-empty slot below that index as its index,
  its length and its bytes, every integer as 32 bits, little-endian.
\<close>

theorem Unmarshal_Marshal:
  assumes "length p < 2 ^ 32" and "\<forall>s\<in>set p. slot_len s < 2 ^ 32"
  shows "Marshal p = wire_form p \<and>
         (\<exists>q. Unmarshal (Marshal p) = Inr (Some q) \<and> length q = length p \<and>
              (\<forall>i<length p. bytes_Equal (q ! i) (p ! i)))"
proof -
  let ?K = "last_nonempty p (length p)"
  let ?q = "fill p 0 ?K (replicate (length p) None)"
  have "Unmarshal (Marshal p) = Inr (Some ?q)"
    using Unmarshal_wire_form [OF assms] by (simp add: Marshal_wire_form)
  moreover have "length ?q = length p" by (simp add: length_fill)
  moreover have "bytes_Equal (?q ! i) (p ! i)" if "i < length p" for i
  proof (cases "i < ?K \<and> slot_len (p ! i) \<noteq> 0")
    case True
    with that show ?thesis by (simp add: fill_nth bytes_Equal_def)
  next
    case False
    then have "slot_len (p ! i) = 0"
      using last_nonempty_after [of p "length p" i] that by auto
    with False that show ?thesis by (auto simp: fill_nth bytes_Equal_def slot_len_def)
  qed
  ultimately show ?thesis using Marshal_wire_form by blast
qed

theorem Unmarshal_Marshal_witness:
  "Marshal [Some [7, 8], None, Some []] = [1, 3, 0, 0, 0, 1, 0, 0, 0, 0, 0, 0, 0, 2, 0, 0, 0, 7, 8] \<and>
   Unmarshal [1, 3, 0, 0, 0, 1, 0, 0, 0, 0, 0, 0, 0, 2, 0, 0, 0, 7, 8] = Inr (Some [Some [7, 8], None, None])"
proof -
  have m: "Marshal [Some [7, 8], None, Some []] =
      [1, 3, 0, 0, 0, 1, 0, 0, 0, 0, 0, 0, 0, 2, 0, 0, 0, 7, 8]"
    using Unmarshal_Marshal [of "[Some [7, 8], None, Some []]"]
    by (simp add: wire_form_def wire_entry_def slot_len_def PutUint32_def)
  have r: "replicate 3 (None :: slot) = [None, None, None]"
    by (simp add: numeral_3_eq_3)
  have "Unmarshal [1, 3, 0, 0, 0, 1, 0, 0, 0, 0, 0, 0, 0, 2, 0, 0, 0, 7, 8] =
      Inr (Some [Some [7, 8], None, None])"
    by (simp add: Unmarshal_def checkMessageType_def MarshalledTypePattern_def ebind_def
        unmarshalPrefixLength_def unmarshalPrefixWithLength_def Uint32_def store_def
        Unmarshal_loop.simps r)
  with m show ?thesis by simp
qed

text \<open>
  C7, as stated, fails on the code: lengths are written with \<^verbatim>\<open>uint32(length)\<close>, which
  keeps the low 32 bits.  The pattern of one slot of \<open>2^32\<close> bytes is marshalled with
  the length 0 for that slot; \<^verbatim>\<open>Unmarshal\<close> reads a nil slot, which is not byte-equal
  to the slot marshalled.
\<close>

theorem Unmarshal_Marshal_counterexample:
  "Unmarshal (Marshal [Some (replicate (2 ^ 32) 0)]) = Inr (Some [None]) \<and>
   \<not> bytes_Equal None (Some (replicate (2 ^ 32) 0))"
proof -
  define big :: bytes where "big = replicate (2 ^ 32) 0"
  have len: "length big = 4294967296" by (simp add: big_def)
  have z: "(4294967296 :: uint32) = 0"
    by (simp add: word_eq_iff_unsigned [where ?'a = nat])
  have w: "wire_form [Some big] = 1 # PutUint32 1 @ PutUint32 1 @ PutUint32 0 @ PutUint32 0 @ big"
    by (simp add: wire_form_def wire_entry_def slot_len_def len z)
  have l1: "Unmarshal_loop 0 0 buf pat = Inr pat" for buf pat
    by (simp add: Unmarshal_loop.simps)
  have l0: "Unmarshal_loop (- 1) 0 (PutUint32 0 @ PutUint32 0 @ big) [None] = Inr [None]"
    by (subst Unmarshal_loop.simps)
       (simp add: unmarshalPrefixLength_PutUint32 unmarshalPrefixWithLength_def ebind_def
          store_def l1)
  have "Unmarshal (Marshal [Some big]) = Inr (Some [None])"
    unfolding Marshal_wire_form w
    by (simp add: Unmarshal_def checkMessageType_def MarshalledTypePattern_def ebind_def
        unmarshalPrefixLength_PutUint32 l0)
  moreover have "\<not> bytes_Equal None (Some big)"
    using len by (auto simp: bytes_Equal_def)
  ultimately show ?thesis by (simp add: big_def)
qed

section \<open>C1: a second encryption with the cached pattern\<close>

lemma take_copy_prefix:
  "take n (copy_prefix n src (replicate (n + k) 0)) = key_block n src"
  by (simp add: copy_prefix_def key_block_def min_def)

lemma length_key_block: "length (key_block n src) = n"
  by (simp add: key_block_def)

lemma copy_and_encrypt_fields:
  "entry_after (copy_and_encrypt L rnd entry n message) = entry"
  "encapsulations (copy_and_encrypt L rnd entry n message) = n"
  "used_key (copy_and_encrypt L rnd entry n message) = entry_key entry"
  by (simp_all add: copy_and_encrypt_def Let_def split: sum.splits)

lemma copy_and_encrypt_returned:
  "returned (copy_and_encrypt L rnd entry n message) =
     (case lib_CiphertextMarshal L (entry_encryptedKey entry) of
        Inl e \<Rightarrow> Inl e
      | Inr marshalled \<Rightarrow>
          (case lib_aesCTREncryptInMem L rnd message (entry_key entry) of
             Inl e \<Rightarrow> Inl e
           | Inr tail \<Rightarrow> Inr (key_block (lib_EncryptedKeySize L) marshalled @ tail)))"
  by (simp add: copy_and_encrypt_def Let_def take_copy_prefix add.assoc split: sum.splits)

lemma encrypt_with_entry_success:
  assumes "returned (encrypt_with_entry L rnd params entry pattern message) = Inr b"
  shows "\<exists>n. encrypt_with_entry L rnd params entry pattern message =
           copy_and_encrypt L rnd
             (entry_after (encrypt_with_entry L rnd params entry pattern message)) n message"
  using assms
  by (auto simp: encrypt_with_entry_def Let_def copy_and_encrypt_fields
           split: sum.splits if_splits prod.splits)

lemma encrypt_with_entry_identical:
  "Equals (slots pattern) (slots (entry_pattern entry)) = Inr True \<Longrightarrow>
   encrypt_with_entry L rnd params entry pattern message = copy_and_encrypt L rnd entry 0 message"
  by (simp add: encrypt_with_entry_def)

text \<open>
  C1: in a sequential execution, after a successful \<^verbatim>\<open>EncryptWithPattern\<close> call, a
  second call that finds the same cache entry and whose pattern equals the pattern now
  cached in it makes no call of \<^verbatim>\<open>wkdibe.EncryptPrepared\<close> and leaves the entry (its
  pattern, attributes, key, encapsulation and precomputation) as it is; its symmetric
  key is the key of the first call, and its output, when the cipher returns one,
  begins with the same \<^verbatim>\<open>EncryptedKeySize\<close> bytes as the output of the first call.
\<close>

theorem second_encryption_reuses_entry:
  assumes "EncryptWithPattern L rnd1 (Inr params1) (Inr entry0) pattern1 message1 = Inr out1"
    and "returned out1 = Inr bytes1"
    and "Equals (slots pattern2) (slots (entry_pattern (entry_after out1))) = Inr True"
  shows "\<exists>out2.
           EncryptWithPattern L rnd2 (Inr params2) (Inr (entry_after out1)) pattern2 message2
             = Inr out2 \<and>
           encapsulations out2 = 0 \<and>
           entry_after out2 = entry_after out1 \<and>
           used_key out2 = used_key out1 \<and>
           returned out2 =
             (case lib_aesCTREncryptInMem L rnd2 message2 (used_key out1) of
                Inl e \<Rightarrow> Inl e
              | Inr tail \<Rightarrow> Inr (take (lib_EncryptedKeySize L) bytes1 @ tail)) \<and>
           (\<forall>bytes2. returned out2 = Inr bytes2 \<longrightarrow>
              take (lib_EncryptedKeySize L) bytes2 = take (lib_EncryptedKeySize L) bytes1)"
proof -
  let ?e1 = "entry_after out1"
  let ?n = "lib_EncryptedKeySize L"
  from assms(1) have out1: "out1 = encrypt_with_entry L rnd1 params1 entry0 pattern1 message1"
    by (simp add: EncryptWithPattern_def)
  from encrypt_with_entry_success [of L rnd1 params1 entry0 pattern1 message1 bytes1] assms(2)
  obtain n where c1: "out1 = copy_and_encrypt L rnd1 ?e1 n message1"
    unfolding out1 by blast
  from assms(2) obtain m tail1 where
    m: "lib_CiphertextMarshal L (entry_encryptedKey ?e1) = Inr m"
    and b1: "bytes1 = key_block ?n m @ tail1"
    by (subst (asm) c1) (auto simp: copy_and_encrypt_returned split: sum.splits)
  have k1: "used_key out1 = entry_key ?e1"
    by (subst c1) (simp add: copy_and_encrypt_fields)
  have t1: "take ?n bytes1 = key_block ?n m"
    by (simp add: b1 length_key_block)
  let ?out2 = "copy_and_encrypt L rnd2 ?e1 0 message2"
  have "EncryptWithPattern L rnd2 (Inr params2) (Inr ?e1) pattern2 message2 = Inr ?out2"
    using assms(3) by (simp add: EncryptWithPattern_def encrypt_with_entry_identical)
  moreover have "returned ?out2 =
      (case lib_aesCTREncryptInMem L rnd2 message2 (used_key out1) of
         Inl e \<Rightarrow> Inl e
       | Inr tail \<Rightarrow> Inr (take ?n bytes1 @ tail))"
    unfolding t1 by (simp add: copy_and_encrypt_returned m k1)
  moreover have "take ?n bytes2 = take ?n bytes1" if "returned ?out2 = Inr bytes2" for bytes2
    using that by (auto simp: copy_and_encrypt_returned m t1 length_key_block split: sum.splits)
  ultimately show ?thesis
    by (simp add: copy_and_encrypt_fields k1)
qed


lemma first_call_example:
  "EncryptWithPattern example_library 9 (Inr ()) (Inr new_entry) (Some [Some [1], None]) [5, 6] =
     Inr \<lparr>returned = Inr ([9, 9, 1, 2] @ replicate 16 0 @ [5, 6]),
          used_key = replicate 16 9,
          entry_after = \<lparr>entry_pattern = Some [Some [1], None],
                         entry_attrs = ToAttrs length [Some [1], None],
                         entry_key = replicate 16 9,
                         entry_encryptedKey = Some [9, 9, 1, 2],
                         entry_precomputed = ToAttrs length [Some [1], None]\<rparr>,
          encapsulations = 1\<rparr>"
  by (simp add: EncryptWithPattern_def encrypt_with_entry_def example_library_def new_entry_def
      Equals_def copy_and_encrypt_def copy_prefix_def aes_BlockSize_def Let_def)

theorem second_encryption_reuses_entry_witness:
  "\<exists>out2.
     EncryptWithPattern example_library 3 (Inr ())
       (Inr \<lparr>entry_pattern = Some [Some [1], None],
             entry_attrs = ToAttrs length [Some [1], None],
             entry_key = replicate 16 9,
             entry_encryptedKey = Some [9, 9, 1, 2],
             entry_precomputed = ToAttrs length [Some [1], None]\<rparr>)
       (Some [Some [1], Some []]) [7] = Inr out2 \<and>
     encapsulations out2 = 0 \<and>
     used_key out2 = replicate 16 9 \<and>
     returned out2 = Inr ([9, 9, 1, 2] @ replicate 16 0 @ [7])"
  using second_encryption_reuses_entry [OF first_call_example,
      of "[9, 9, 1, 2] @ replicate 16 0 @ [5, 6]" "Some [Some [1], Some []]" 3 "()" "[7]"]
  by (auto simp: Equals_def index_def bytes_Equal_def example_library_def)

section \<open>C4: the covering range of time paths\<close>

subsection \<open>Coverage: the paths of a range cover the hours between its ends\<close>

lemma covers_Nil_path [simp]: "covers [[]] p"
  by (simp add: covers_def is_prefix_def)

lemma covers_append: "covers (a @ b) p \<longleftrightarrow> covers a p \<or> covers b p"
  by (simp add: covers_def)

lemma covers_Cons_paths: "covers (map ((#) x) qs) (z # zs) \<longleftrightarrow> x = z \<and> covers qs zs"
  by (auto simp: covers_def is_prefix_def list_ex_iff)

lemma covers_singles: "covers (map (\<lambda>c. [c]) cs) (z # zs) \<longleftrightarrow> z \<in> set cs"
  by (auto simp: covers_def is_prefix_def list_ex_iff)

lemma at_start_least:
  "at_start pre xs \<Longrightarrow> within_bounds pre ys \<Longrightarrow> length ys = length xs \<Longrightarrow> path_le xs ys"
proof (induction xs arbitrary: pre ys)
  case Nil
  then show ?case by simp
next
  case (Cons x xs)
  then obtain y ys' where ys: "ys = y # ys'" by (cases ys) auto
  with Cons.prems have "x \<le> y" by simp
  show ?case
  proof (cases "x = y")
    case True
    with Cons ys show ?thesis by auto
  next
    case False
    with \<open>x \<le> y\<close> ys show ?thesis by simp
  qed
qed

lemma at_end_greatest:
  "at_end pre ys \<Longrightarrow> within_bounds pre xs \<Longrightarrow> length xs = length ys \<Longrightarrow> path_le xs ys"
proof (induction ys arbitrary: pre xs)
  case Nil
  then show ?case by simp
next
  case (Cons y ys)
  then obtain x xs' where xs: "xs = x # xs'" by (cases xs) auto
  with Cons.prems have "x \<le> y" by simp
  show ?case
  proof (cases "x = y")
    case True
    with Cons xs show ?thesis by auto
  next
    case False
    with \<open>x \<le> y\<close> xs show ?thesis by simp
  qed
qed

lemma ascend_covers:
  "within_bounds pre zs \<Longrightarrow> length zs = length xs \<Longrightarrow>
   covers (ascend pre xs) zs \<longleftrightarrow> path_le xs zs"
proof (induction xs arbitrary: pre zs)
  case Nil
  then show ?case by simp
next
  case (Cons x xs)
  then obtain z zs' where zs: "zs = z # zs'" by (cases zs) auto
  show ?case
  proof (cases "at_start pre (x # xs)")
    case True
    with at_start_least [OF True Cons.prems(1)] Cons.prems show ?thesis
      by (simp del: at_start.simps)
  next
    case False
    have "covers (ascend (pre @ [x]) xs) zs' \<longleftrightarrow> path_le xs zs'" if "x = z"
      using Cons.prems that by (intro Cons.IH) (auto simp: zs)
    moreover have "z \<le> snd (time_bounds pre)" using Cons.prems by (simp add: zs)
    ultimately show ?thesis
      using False
      by (auto simp: zs covers_append covers_Cons_paths covers_singles
               simp del: at_start.simps at_end.simps)
  qed
qed

lemma descend_covers:
  "within_bounds pre zs \<Longrightarrow> length zs = length ys \<Longrightarrow>
   covers (descend pre ys) zs \<longleftrightarrow> path_le zs ys"
proof (induction ys arbitrary: pre zs)
  case Nil
  then show ?case by simp
next
  case (Cons y ys)
  then obtain z zs' where zs: "zs = z # zs'" by (cases zs) auto
  show ?case
  proof (cases "at_end pre (y # ys)")
    case True
    with at_end_greatest [OF True Cons.prems(1)] Cons.prems show ?thesis
      by (simp del: at_end.simps)
  next
    case False
    have "covers (descend (pre @ [y]) ys) zs' \<longleftrightarrow> path_le zs' ys" if "y = z"
      using Cons.prems that by (intro Cons.IH) (auto simp: zs)
    moreover have "fst (time_bounds pre) \<le> z" using Cons.prems by (simp add: zs)
    ultimately show ?thesis
      using False
      by (auto simp: zs covers_append covers_Cons_paths covers_singles
               simp del: at_start.simps at_end.simps)
  qed
qed

lemma range_under_covers:
  "within_bounds pre zs \<Longrightarrow> length zs = length xs \<Longrightarrow> length ys = length xs \<Longrightarrow>
   path_le xs ys \<Longrightarrow>
   covers (range_under pre xs ys) zs \<longleftrightarrow> path_le xs zs \<and> path_le zs ys"
proof (induction xs arbitrary: pre ys zs)
  case Nil
  then show ?case by simp
next
  case (Cons x xs)
  then obtain z zs' where zs: "zs = z # zs'" by (cases zs) auto
  from Cons.prems obtain y ys' where ys: "ys = y # ys'" by (cases ys) auto
  show ?case
  proof (cases "at_start pre (x # xs) \<and> at_end pre (y # ys')")
    case True
    then have "path_le (x # xs) zs" "path_le zs (y # ys')"
      using Cons.prems at_start_least [of pre "x # xs" zs] at_end_greatest [of pre "y # ys'" zs]
      by (auto simp: ys)
    with True show ?thesis by (simp add: ys del: at_start.simps at_end.simps)
  next
    case collapse: False
    show ?thesis
    proof (cases "x = y")
      case True
      have "covers (range_under (pre @ [x]) xs ys') zs' \<longleftrightarrow> path_le xs zs' \<and> path_le zs' ys'"
        if "x = z"
        using Cons.prems that True by (intro Cons.IH) (auto simp: zs ys)
      with collapse True show ?thesis
        by (auto simp: zs ys covers_Cons_paths simp del: at_start.simps at_end.simps)
    next
      case False
      with Cons.prems have lt: "x < y" by (simp add: ys)
      have a: "covers (ascend (pre @ [x]) xs) zs' \<longleftrightarrow> path_le xs zs'" if "x = z"
        using Cons.prems that by (intro ascend_covers) (auto simp: zs)
      have d: "covers (descend (pre @ [y]) ys') zs' \<longleftrightarrow> path_le zs' ys'" if "y = z"
        using Cons.prems that by (intro descend_covers) (auto simp: zs ys)
      from collapse False lt a d show ?thesis
        by (auto simp: zs ys covers_append covers_Cons_paths covers_singles
                 simp del: at_start.simps at_end.simps)
    qed
  qed
qed

subsection \<open>Every block of the hierarchy holds an hour before or after a proper part\<close>

lemma within_bounds_append:
  "within_bounds p (q @ xs) \<longleftrightarrow> within_bounds p q \<and> within_bounds (p @ q) xs"
  by (induction q arbitrary: p) auto

lemma within_bounds_snoc:
  "within_bounds [] pre \<Longrightarrow> fst (time_bounds pre) \<le> x \<Longrightarrow> x \<le> snd (time_bounds pre) \<Longrightarrow>
   within_bounds [] (pre @ [x])"
  by (simp add: within_bounds_append)

lemma spec_day_bounds_nonempty:
  assumes "1 \<le> k"
  shows "fst (spec_day_bounds y m k) \<le> snd (spec_day_bounds y m k)"
proof (cases "k \<le> 5")
  case True
  then have "spec_day_bounds y m k = (5 * (k - 1) + 1, 5 * k)"
    by (simp add: spec_day_bounds_def)
  with assms show ?thesis by simp
next
  case False
  then have "fst (spec_day_bounds y m k) = 26" "28 \<le> snd (spec_day_bounds y m k)"
    by (simp_all add: spec_day_bounds_def)
  then show ?thesis by simp
qed

lemma bounds_nonempty:
  assumes "within_bounds [] pre" and "length pre \<le> 5"
  shows "fst (time_bounds pre) \<le> snd (time_bounds pre)"
    and "length pre = 5 \<Longrightarrow> fst (time_bounds pre) < snd (time_bounds pre)"
proof -
  from assms(2) consider "length pre = 0" | "length pre = 1" | "length pre = 2"
    | "length pre = 3" | "length pre = 4" | "length pre = 5" by linarith
  then have "fst (time_bounds pre) \<le> snd (time_bounds pre) \<and>
      (length pre = 5 \<longrightarrow> fst (time_bounds pre) < snd (time_bounds pre))"
  proof cases
    case 4
    then obtain a b c where pre: "pre = [a, b, c]"
      by (auto simp: numeral_3_eq_3 length_Suc_conv)
    with assms(1) have "1 \<le> c" by (simp add: time_bounds_def)
    then show ?thesis using spec_day_bounds_nonempty [of c a b] by (simp add: pre time_bounds_def)
  next
    case 6
    then obtain a b c d e where pre: "pre = [a, b, c, d, e]"
      by (auto simp: eval_nat_numeral length_Suc_conv)
    with assms(1) have "1 \<le> e" by (simp add: time_bounds_def)
    then have "6 * (e - 1) < 6 * e - 1" by arith
    then show ?thesis by (simp add: pre time_bounds_def)
  qed (simp_all add: time_bounds_def)
  then show "fst (time_bounds pre) \<le> snd (time_bounds pre)"
    and "length pre = 5 \<Longrightarrow> fst (time_bounds pre) < snd (time_bounds pre)" by simp_all
qed

lemma first_path_within:
  "within_bounds [] pre \<Longrightarrow> length pre + n \<le> 6 \<Longrightarrow>
   within_bounds pre (first_path pre n) \<and> length (first_path pre n) = n"
proof (induction n arbitrary: pre)
  case 0
  then show ?case by simp
next
  case (Suc n)
  have ne: "fst (time_bounds pre) \<le> snd (time_bounds pre)"
    using Suc.prems by (intro bounds_nonempty) simp_all
  with Suc.prems have "within_bounds [] (pre @ [fst (time_bounds pre)])"
    by (intro within_bounds_snoc) simp_all
  with Suc.IH [of "pre @ [fst (time_bounds pre)]"] Suc.prems ne show ?case by simp
qed

lemma last_path_within:
  "within_bounds [] pre \<Longrightarrow> length pre + n \<le> 6 \<Longrightarrow>
   within_bounds pre (last_path pre n) \<and> length (last_path pre n) = n"
proof (induction n arbitrary: pre)
  case 0
  then show ?case by simp
next
  case (Suc n)
  have ne: "fst (time_bounds pre) \<le> snd (time_bounds pre)"
    using Suc.prems by (intro bounds_nonempty) simp_all
  with Suc.prems have "within_bounds [] (pre @ [snd (time_bounds pre)])"
    by (intro within_bounds_snoc) simp_all
  with Suc.IH [of "pre @ [snd (time_bounds pre)]"] Suc.prems ne show ?case by simp
qed

lemma before_start:
  "within_bounds pre xs \<Longrightarrow> \<not> at_start pre xs \<Longrightarrow> \<not> path_le xs (first_path pre (length xs))"
proof (induction xs arbitrary: pre)
  case Nil
  then show ?case by simp
next
  case (Cons x xs)
  show ?case
  proof (cases "x = fst (time_bounds pre)")
    case True
    with Cons.prems have "\<not> at_start (pre @ [x]) xs" "within_bounds (pre @ [x]) xs" by simp_all
    from Cons.IH [OF this(2) this(1)] True show ?thesis by simp
  next
    case False
    with Cons.prems have "fst (time_bounds pre) < x" by simp
    then show ?thesis by simp
  qed
qed

lemma after_end:
  "within_bounds pre ys \<Longrightarrow> \<not> at_end pre ys \<Longrightarrow> \<not> path_le (last_path pre (length ys)) ys"
proof (induction ys arbitrary: pre)
  case Nil
  then show ?case by simp
next
  case (Cons y ys)
  show ?case
  proof (cases "y = snd (time_bounds pre)")
    case True
    with Cons.prems have "\<not> at_end (pre @ [y]) ys" "within_bounds (pre @ [y]) ys" by simp_all
    from Cons.IH [OF this(2) this(1)] True show ?thesis by simp
  next
    case False
    with Cons.prems have "y < snd (time_bounds pre)" by simp
    then show ?thesis by simp
  qed
qed

text \<open>An hour of the block outside the interval, when the interval does not fill the block.\<close>

lemma outside_exists:
  assumes "within_bounds [] pre" and "length pre + length xs \<le> 6"
    and "within_bounds pre xs" and "within_bounds pre ys" and "length ys = length xs"
    and "\<not> (at_start pre xs \<and> at_end pre ys)"
  shows "\<exists>zs. within_bounds pre zs \<and> length zs = length xs \<and>
              \<not> (path_le xs zs \<and> path_le zs ys)"
proof (cases "at_start pre xs")
  case False
  with before_start [OF assms(3)] first_path_within [OF assms(1,2)] show ?thesis by blast
next
  case True
  with assms(6) have "\<not> at_end pre ys" by simp
  with after_end [OF assms(4)] last_path_within [OF assms(1), of "length ys"] assms(2,5)
  show ?thesis by auto
qed

subsection \<open>Minimality: the parent of a path of the range reaches outside\<close>

lemma is_prefix_Nil [simp]: "is_prefix [] zs"
  by (simp add: is_prefix_def)

lemma is_prefix_Cons [simp]: "is_prefix (x # q) (z # zs) \<longleftrightarrow> x = z \<and> is_prefix q zs"
  by (auto simp: is_prefix_def)

lemma ascend_minimal:
  assumes "within_bounds [] pre" and "length pre + length xs \<le> 6" and "within_bounds pre xs"
    and "q \<in> set (ascend pre xs)" and "q \<noteq> []"
  shows "\<exists>zs. within_bounds pre zs \<and> length zs = length xs \<and> is_prefix (butlast q) zs \<and>
              \<not> path_le xs zs"
  using assms
proof (induction xs arbitrary: pre q)
  case Nil
  then show ?case by simp
next
  case (Cons x xs)
  have ns: "\<not> at_start pre (x # xs)"
    using Cons.prems(4,5) by (auto simp del: at_start.simps)
  have top: "\<exists>zs. within_bounds pre zs \<and> length zs = length (x # xs) \<and> is_prefix [] zs \<and>
      \<not> path_le (x # xs) zs"
    using before_start [OF Cons.prems(3) ns] first_path_within [OF Cons.prems(1,2)]
    by (intro exI [of _ "first_path pre (length (x # xs))"]) simp
  from Cons.prems(4) ns consider q' where "q = x # q'" "q' \<in> set (ascend (pre @ [x]) xs)"
    | c where "q = [c]"
    by (auto simp del: at_start.simps)
  then show ?case
  proof cases
    case 1
    show ?thesis
    proof (cases "q' = []")
      case True
      with 1 top show ?thesis by simp
    next
      case False
      have "within_bounds [] (pre @ [x])"
        using Cons.prems(1,3) by (intro within_bounds_snoc) simp_all
      from Cons.IH [OF this _ _ 1(2) False] Cons.prems(2,3)
      obtain zs where "within_bounds (pre @ [x]) zs" "length zs = length xs"
        "is_prefix (butlast q') zs" "\<not> path_le xs zs" by auto
      with Cons.prems(3) False 1 show ?thesis
        by (intro exI [of _ "x # zs"]) simp
    qed
  next
    case 2
    with top show ?thesis by simp
  qed
qed

lemma descend_minimal:
  assumes "within_bounds [] pre" and "length pre + length ys \<le> 6" and "within_bounds pre ys"
    and "q \<in> set (descend pre ys)" and "q \<noteq> []"
  shows "\<exists>zs. within_bounds pre zs \<and> length zs = length ys \<and> is_prefix (butlast q) zs \<and>
              \<not> path_le zs ys"
  using assms
proof (induction ys arbitrary: pre q)
  case Nil
  then show ?case by simp
next
  case (Cons y ys)
  have ns: "\<not> at_end pre (y # ys)"
    using Cons.prems(4,5) by (auto simp del: at_end.simps)
  have top: "\<exists>zs. within_bounds pre zs \<and> length zs = length (y # ys) \<and> is_prefix [] zs \<and>
      \<not> path_le zs (y # ys)"
    using after_end [OF Cons.prems(3) ns] last_path_within [OF Cons.prems(1,2)]
    by (intro exI [of _ "last_path pre (length (y # ys))"]) simp
  from Cons.prems(4) ns consider q' where "q = y # q'" "q' \<in> set (descend (pre @ [y]) ys)"
    | c where "q = [c]"
    by (auto simp del: at_end.simps)
  then show ?case
  proof cases
    case 1
    show ?thesis
    proof (cases "q' = []")
      case True
      with 1 top show ?thesis by simp
    next
      case False
      have "within_bounds [] (pre @ [y])"
        using Cons.prems(1,3) by (intro within_bounds_snoc) simp_all
      from Cons.IH [OF this _ _ 1(2) False] Cons.prems(2,3)
      obtain zs where "within_bounds (pre @ [y]) zs" "length zs = length ys"
        "is_prefix (butlast q') zs" "\<not> path_le zs ys" by auto
      with Cons.prems(3) False 1 show ?thesis
        by (intro exI [of _ "y # zs"]) simp
    qed
  next
    case 2
    with top show ?thesis by simp
  qed
qed

lemma range_under_minimal:
  assumes "within_bounds [] pre" and "length pre + length xs \<le> 6"
    and "within_bounds pre xs" and "within_bounds pre ys" and "length ys = length xs"
    and "q \<in> set (range_under pre xs ys)" and "q \<noteq> []"
  shows "\<exists>zs. within_bounds pre zs \<and> length zs = length xs \<and> is_prefix (butlast q) zs \<and>
              \<not> (path_le xs zs \<and> path_le zs ys)"
  using assms
proof (induction xs arbitrary: pre ys q)
  case Nil
  then show ?case by simp
next
  case (Cons x xs)
  from Cons.prems(5) obtain y ys' where ys: "ys = y # ys'" by (cases ys) auto
  have nc: "\<not> (at_start pre (x # xs) \<and> at_end pre ys)"
    using Cons.prems(6,7) unfolding ys by (auto simp del: at_start.simps at_end.simps)
  have top: "\<exists>zs. within_bounds pre zs \<and> length zs = length (x # xs) \<and> is_prefix [] zs \<and>
      \<not> (path_le (x # xs) zs \<and> path_le zs ys)"
    using outside_exists [OF Cons.prems(1,2,3,4,5) nc] by simp
  have wx: "within_bounds [] (pre @ [x])"
    using Cons.prems(1,3) by (intro within_bounds_snoc) simp_all
  have wy: "within_bounds [] (pre @ [y])"
    using Cons.prems(1,4) unfolding ys by (intro within_bounds_snoc) simp_all
  from Cons.prems(6) nc consider
      q' where "x = y" "q = x # q'" "q' \<in> set (range_under (pre @ [x]) xs ys')"
    | q' where "x \<noteq> y" "q = x # q'" "q' \<in> set (ascend (pre @ [x]) xs)"
    | c where "q = [c]"
    | q' where "x \<noteq> y" "q = y # q'" "q' \<in> set (descend (pre @ [y]) ys')"
    unfolding ys by (auto simp del: at_start.simps at_end.simps split: if_splits)
  then show ?case
  proof cases
    case 1
    show ?thesis
    proof (cases "q' = []")
      case True
      with 1 top show ?thesis by simp
    next
      case False
      from Cons.IH [OF wx _ _ _ _ 1(3) False] Cons.prems(2,3,4,5) 1(1)
      obtain zs where "within_bounds (pre @ [x]) zs" "length zs = length xs"
        "is_prefix (butlast q') zs" "\<not> (path_le xs zs \<and> path_le zs ys')"
        unfolding ys by auto
      with Cons.prems(3) False 1 show ?thesis
        unfolding ys by (intro exI [of _ "x # zs"]) simp
    qed
  next
    case 2
    show ?thesis
    proof (cases "q' = []")
      case True
      with 2 top show ?thesis by simp
    next
      case False
      from ascend_minimal [OF wx _ _ 2(3) False] Cons.prems(2,3)
      obtain zs where "within_bounds (pre @ [x]) zs" "length zs = length xs"
        "is_prefix (butlast q') zs" "\<not> path_le xs zs" by auto
      with Cons.prems(3) False 2 show ?thesis
        by (intro exI [of _ "x # zs"]) simp
    qed
  next
    case 3
    with top show ?thesis by simp
  next
    case 4
    show ?thesis
    proof (cases "q' = []")
      case True
      with 4 top show ?thesis by simp
    next
      case False
      from descend_minimal [OF wy _ _ 4(3) False] Cons.prems(2,4,5)
      obtain zs where "within_bounds (pre @ [y]) zs" "length zs = length xs"
        "is_prefix (butlast q') zs" "\<not> path_le zs ys'"
        unfolding ys by auto
      with Cons.prems(4) False 4 show ?thesis
        unfolding ys by (intro exI [of _ "y # zs"]) simp
    qed
  qed
qed

lemma not_both_ends:
  "within_bounds [] pre \<Longrightarrow> length pre + length xs = 6 \<Longrightarrow> xs \<noteq> [] \<Longrightarrow>
   \<not> (at_start pre xs \<and> at_end pre xs)"
proof (induction xs arbitrary: pre)
  case Nil
  then show ?case by simp
next
  case (Cons x xs)
  show ?case
  proof
    assume both: "at_start pre (x # xs) \<and> at_end pre (x # xs)"
    then have x: "x = fst (time_bounds pre)" "x = snd (time_bounds pre)" by simp_all
    show False
    proof (cases "xs = []")
      case True
      with Cons.prems have "length pre = 5" by simp
      with bounds_nonempty(2) [OF Cons.prems(1)] x show False by simp
    next
      case False
      have "fst (time_bounds pre) \<le> x" "x \<le> snd (time_bounds pre)" using x by simp_all
      with Cons.prems(1) have "within_bounds [] (pre @ [x])" by (intro within_bounds_snoc)
      moreover from both have "at_start (pre @ [x]) xs \<and> at_end (pre @ [x]) xs" by auto
      moreover from Cons.prems(2) have "length (pre @ [x]) + length xs = 6" by simp
      ultimately show False using Cons.IH [of "pre @ [x]"] False by blast
    qed
  qed
qed

lemma range_under_single:
  "within_bounds [] pre \<Longrightarrow> within_bounds pre xs \<Longrightarrow> length pre + length xs = 6 \<Longrightarrow>
   range_under pre xs xs = [xs]"
proof (induction xs arbitrary: pre)
  case Nil
  then show ?case by simp
next
  case (Cons x xs)
  have "\<not> (at_start pre (x # xs) \<and> at_end pre (x # xs))"
    using Cons.prems by (intro not_both_ends) simp_all
  moreover have "within_bounds [] (pre @ [x])"
    using Cons.prems by (intro within_bounds_snoc) simp_all
  with Cons.IH [of "pre @ [x]"] Cons.prems
  have "range_under (pre @ [x]) xs xs = [xs]" by simp
  ultimately show ?case by (simp del: at_start.simps at_end.simps)
qed

subsection \<open>Timestamps and their paths of quantities\<close>

lemma nat_in_1_12: "1 \<le> (m::nat) \<Longrightarrow> m \<le> 12 \<Longrightarrow> m \<in> {1, 2, 3, 4, 5, 6, 7, 8, 9, 10, 11, 12}"
  by simp arith

lemma nat_mod_zero_iff:
  assumes "0 \<le> y"
  shows "(nat y mod n = 0) \<longleftrightarrow> (y mod int n = 0)"
proof -
  from assms obtain k where "y = int k" by (rule nonneg_int_cases)
  then show ?thesis by (simp flip: of_nat_mod)
qed

lemma five_day_index:
  fixes d :: nat
  assumes "1 \<le> d" and "d \<le> 31"
  shows "1 \<le> min 6 ((d - 1) div 5 + 1)" and "min 6 ((d - 1) div 5 + 1) \<le> 6"
    and "min 6 ((d - 1) div 5 + 1) \<le> 5 \<Longrightarrow>
          5 * (min 6 ((d - 1) div 5 + 1) - 1) + 1 \<le> d \<and> d \<le> 5 * min 6 ((d - 1) div 5 + 1)"
    and "\<not> min 6 ((d - 1) div 5 + 1) \<le> 5 \<Longrightarrow> 26 \<le> d"
proof -
  define q where "q = (d - 1) div 5"
  have q: "5 * q \<le> d - 1" "d - 1 < 5 * q + 5"
    unfolding q_def by presburger+
  show "1 \<le> min 6 ((d - 1) div 5 + 1)" by simp
  show "min 6 ((d - 1) div 5 + 1) \<le> 6" by simp
  show "5 * (min 6 ((d - 1) div 5 + 1) - 1) + 1 \<le> d \<and> d \<le> 5 * min 6 ((d - 1) div 5 + 1)"
    if "min 6 ((d - 1) div 5 + 1) \<le> 5"
    using that q assms unfolding q_def [symmetric] by (simp add: min_def split: if_splits) arith?
  show "26 \<le> d" if "\<not> min 6 ((d - 1) div 5 + 1) \<le> 5"
    using that q assms unfolding q_def [symmetric] by (simp add: min_def split: if_splits) arith?
qed


lemma six_hour_index:
  fixes h :: nat
  assumes "h \<le> 23"
  shows "6 * (h div 6 + 1 - 1) \<le> h" and "h \<le> 6 * (h div 6 + 1) - 1" and "h div 6 + 1 \<le> 4"
    and "1 \<le> h div 6 + 1"
proof -
  define q where "q = h div 6"
  have q: "6 * q \<le> h" "h < 6 * q + 6"
    unfolding q_def by presburger+
  show "6 * (h div 6 + 1 - 1) \<le> h" using q unfolding q_def [symmetric] by simp
  show "h \<le> 6 * (h div 6 + 1) - 1" using q unfolding q_def [symmetric] by simp
  show "h div 6 + 1 \<le> 4" using q assms unfolding q_def [symmetric] by simp
  show "1 \<le> h div 6 + 1" by simp
qed

lemma leap_year_nat: "0 \<le> y \<Longrightarrow>
  (nat y mod 4 = 0 \<and> (nat y mod 100 \<noteq> 0 \<or> nat y mod 400 = 0)) \<longleftrightarrow> leap_year y"
  using nat_mod_zero_iff [of y 4] nat_mod_zero_iff [of y 100] nat_mod_zero_iff [of y 400]
  by (simp add: leap_year_def)

lemma spec_day_bounds_calendar:
  assumes "1 \<le> m" and "m \<le> 12" and "0 \<le> y"
  shows "spec_day_bounds (nat y) m k =
           (if k \<le> 5 then (5 * (k - 1) + 1, 5 * k) else (26, days_in_month y m))"
proof -
  from nat_in_1_12 [OF assms(1,2)]
  consider "m \<in> {1, 3, 5, 7, 8, 10, 12}" | "m \<in> {4, 6, 9, 11}" | "m = 2"
    by auto
  then show ?thesis
  proof cases
    case 1
    then have "m \<notin> {4, 6, 9, 11}" "m \<noteq> 2" by auto
    with 1 show ?thesis unfolding spec_day_bounds_def days_in_month_def by (simp only: if_True if_False)
  next
    case 2
    then have "m \<notin> {1, 3, 5, 7, 8, 10, 12}" by auto
    with 2 show ?thesis unfolding spec_day_bounds_def days_in_month_def by (simp only: if_True if_False)
  next
    case 3
    then show ?thesis
      using leap_year_nat [OF assms(3)] by (simp add: spec_day_bounds_def days_in_month_def)
  qed
qed

lemma days_in_month_ge: "28 \<le> days_in_month y m"
  by (simp add: days_in_month_def)

lemma days_in_month_le: "days_in_month y m \<le> 31"
  by (simp add: days_in_month_def)

lemma path_of_within:
  assumes "supported t"
  shows "within_bounds [] (path_of t)"
proof -
  let ?d = "ts_day t" and ?m = "ts_month t" and ?h = "ts_hour t"
  define k where "k = min 6 ((?d - 1) div 5 + 1)"
  define sx where "sx = ?h div 6 + 1"
  define Y where "Y = nat (ts_year t)"
  from assms have y: "2015 \<le> ts_year t" "ts_year t \<le> 2050"
    and m: "1 \<le> ?m" "?m \<le> 12" and d: "1 \<le> ?d" "?d \<le> days_in_month (ts_year t) ?m"
    and h: "?h \<le> 23"
    by (simp_all add: supported_def valid_timestamp_def)
  from d days_in_month_le [of "ts_year t" ?m] have d31: "?d \<le> 31" by simp
  note k = five_day_index [OF d(1) d31, folded k_def]
  have db: "spec_day_bounds Y ?m k =
      (if k \<le> 5 then (5 * (k - 1) + 1, 5 * k) else (26, days_in_month (ts_year t) ?m))"
    unfolding Y_def using m y by (intro spec_day_bounds_calendar) simp_all
  have day: "fst (spec_day_bounds Y ?m k) \<le> ?d \<and> ?d \<le> snd (spec_day_bounds Y ?m k)"
  proof (cases "k \<le> 5")
    case True
    with k(3) show ?thesis unfolding db by simp
  next
    case False
    with k(4) d show ?thesis unfolding db by simp
  qed
  note hour = six_hour_index [OF h, folded sx_def]
  have yn: "2015 \<le> Y" "Y \<le> 2050" using y by (simp_all add: Y_def)
  have "path_of t = [Y, ?m, k, ?d, sx, ?h]"
    by (simp only: path_of_def Y_def k_def sx_def)
  then show "within_bounds [] (path_of t)"
    using yn m k(1,2) day hour by (simp add: time_bounds_def)
qed

lemma length_path_of [simp]: "length (path_of t) = 6"
  by (simp add: path_of_def)

lemma five_day_mono:
  fixes d d' :: nat
  assumes "d \<le> d'"
  shows "min 6 ((d - 1) div 5 + 1) \<le> min 6 ((d' - 1) div 5 + 1)"
proof -
  from assms have "d - 1 \<le> d' - 1" by simp
  then have "(d - 1) div 5 \<le> (d' - 1) div 5" by (rule div_le_mono)
  then show ?thesis by (simp add: min_def)
qed

lemma six_hour_mono:
  fixes h h' :: nat
  assumes "h \<le> h'"
  shows "h div 6 + 1 \<le> h' div 6 + 1"
  using div_le_mono [OF assms, of 6] by simp

lemma lex_refine:
  fixes k k' d d' :: nat
  assumes "\<And>a b. a \<le> b \<Longrightarrow> f a \<le> f b" and "k = f d" and "k' = f d'"
  shows "(k < k' \<or> (k = k' \<and> (d < d' \<or> (d = d' \<and> R)))) \<longleftrightarrow> (d < d' \<or> (d = d' \<and> R))"
proof -
  have "d < d' \<Longrightarrow> k \<le> k'" using assms(1) [of d d'] assms(2,3) by simp
  moreover have "k < k' \<Longrightarrow> d < d'" using assms(1) [of d' d] assms(2,3) by (cases "d < d'") simp_all
  moreover have "d = d' \<Longrightarrow> k = k'" using assms(2,3) by simp
  ultimately show ?thesis by (cases "d < d'"; cases "k < k'"; cases "d = d'"; cases "k = k'"; simp)
qed

lemma hour_le_path_le:
  assumes "0 \<le> ts_year s" and "0 \<le> ts_year t"
  shows "hour_le s t \<longleftrightarrow> path_le (path_of s) (path_of t)"
proof -
  have hours: "(ts_hour s div 6 + 1 < ts_hour t div 6 + 1 \<or>
      (ts_hour s div 6 + 1 = ts_hour t div 6 + 1 \<and> (ts_hour s < ts_hour t \<or> (ts_hour s = ts_hour t \<and> True))))
      \<longleftrightarrow> (ts_hour s < ts_hour t \<or> (ts_hour s = ts_hour t \<and> True))"
    by (rule lex_refine [where f = "\<lambda>h. h div 6 + 1"]) (simp_all add: div_le_mono)
  define H where "H \<longleftrightarrow> (ts_hour s div 6 + 1 < ts_hour t div 6 + 1 \<or>
      (ts_hour s div 6 + 1 = ts_hour t div 6 + 1 \<and> (ts_hour s < ts_hour t \<or> (ts_hour s = ts_hour t \<and> True))))"
  have H: "H \<longleftrightarrow> ts_hour s \<le> ts_hour t"
    unfolding H_def hours by auto
  have days: "(min 6 ((ts_day s - 1) div 5 + 1) < min 6 ((ts_day t - 1) div 5 + 1) \<or>
      (min 6 ((ts_day s - 1) div 5 + 1) = min 6 ((ts_day t - 1) div 5 + 1) \<and>
        (ts_day s < ts_day t \<or> (ts_day s = ts_day t \<and> H))))
      \<longleftrightarrow> (ts_day s < ts_day t \<or> (ts_day s = ts_day t \<and> H))"
    by (rule lex_refine [where f = "\<lambda>d. min 6 ((d - 1) div 5 + 1)"]) (simp_all add: five_day_mono)
  have years: "nat (ts_year s) < nat (ts_year t) \<longleftrightarrow> ts_year s < ts_year t"
    "nat (ts_year s) = nat (ts_year t) \<longleftrightarrow> ts_year s = ts_year t"
    using assms by arith+
  have "path_le (path_of s) (path_of t) \<longleftrightarrow>
      (ts_year s < ts_year t \<or> (ts_year s = ts_year t \<and>
        (ts_month s < ts_month t \<or> (ts_month s = ts_month t \<and>
          (min 6 ((ts_day s - 1) div 5 + 1) < min 6 ((ts_day t - 1) div 5 + 1) \<or>
      (min 6 ((ts_day s - 1) div 5 + 1) = min 6 ((ts_day t - 1) div 5 + 1) \<and>
        (ts_day s < ts_day t \<or> (ts_day s = ts_day t \<and> H))))))))"
    unfolding path_of_def H_def by (simp only: path_le.simps years)
  also have "\<dots> \<longleftrightarrow> hour_le s t"
    by (simp only: H days [unfolded H] hour_le_def)
  finally show ?thesis ..
qed

lemma within_bounds_timestamp:
  assumes "within_bounds [] zs" and "length zs = 6"
  shows "\<exists>t. supported t \<and> path_of t = zs"
proof -
  from assms(2) obtain Y m k d sx h where zs: "zs = [Y, m, k, d, sx, h]"
    by (cases zs; simp; (rename_tac a as, case_tac as; simp)?;
        (rename_tac b bs, case_tac bs; simp)?; (rename_tac c cs, case_tac cs; simp)?;
        (rename_tac d ds, case_tac ds; simp)?; (rename_tac e es, case_tac es; simp)?)
  from assms(1) have Y: "2015 \<le> Y" "Y \<le> 2050" and m: "1 \<le> m" "m \<le> 12"
    and k: "1 \<le> k" "k \<le> 6"
    and d: "fst (spec_day_bounds Y m k) \<le> d" "d \<le> snd (spec_day_bounds Y m k)"
    and sx: "1 \<le> sx" "sx \<le> 4" and h: "6 * (sx - 1) \<le> h" "h \<le> 6 * sx - 1"
    unfolding zs by (simp_all add: time_bounds_def)
  have db: "spec_day_bounds Y m k =
      (if k \<le> 5 then (5 * (k - 1) + 1, 5 * k) else (26, days_in_month (int Y) m))"
    using spec_day_bounds_calendar [OF m, of "int Y" k] by simp
  have dk: "1 \<le> d \<and> d \<le> days_in_month (int Y) m \<and> min 6 ((d - 1) div 5 + 1) = k"
  proof (cases "k \<le> 5")
    case True
    with d have b: "5 * (k - 1) + 1 \<le> d" "d \<le> 5 * k" unfolding db by simp_all
    have "(d - 1) div 5 = k - 1"
      using b k by (intro div_nat_eqI) arith+
    with k True b days_in_month_ge [of "int Y" m] show ?thesis by simp
  next
    case False
    with k have k6: "k = 6" by simp
    from False d have b: "26 \<le> d" "d \<le> days_in_month (int Y) m" unfolding db by simp_all
    with days_in_month_le [of "int Y" m] have "d \<le> 31" by simp
    from b(1) have "25 \<le> d - 1" by simp
    from div_le_mono [OF this, of 5] have "5 \<le> (d - 1) div 5" by simp
    with b k6 show ?thesis by simp
  qed
  have hs: "h \<le> 23 \<and> h div 6 + 1 = sx"
  proof -
    have "h div 6 = sx - 1"
      using sx h by (intro div_nat_eqI) arith+
    with sx h show ?thesis by simp
  qed
  let ?t = "\<lparr>ts_year = int Y, ts_month = m, ts_day = d, ts_hour = h\<rparr>"
  have "supported ?t" using Y m dk hs by (simp add: supported_def valid_timestamp_def)
  moreover have "path_of ?t = zs" using dk hs by (simp add: path_of_def zs)
  ultimately show ?thesis by blast
qed

subsection \<open>The paths of quantities against ParseTime and TimeComponentBounds\<close>

lemma TimeComponentBounds_day_prefix:
  assumes m: "1 \<le> m" "m \<le> 12" and k: "1 \<le> k" "k \<le> 6"
    and prefix: "prefix = [NewTimeComponent y 0, NewTimeComponent m 1, NewTimeComponent k 2] @ ext"
  shows "\<exists>lo hi. TimeComponentBounds prefix TimeComponentPositionDay = Inr (lo, hi) \<and>
           (unat lo, unat hi) = spec_day_bounds (unat y) (unat m) (unat k)"
proof -
  have pos: "TimeComponentPositionDay \<noteq> TimeComponentPositionYear"
    "TimeComponentPositionDay \<noteq> TimeComponentPositionMonth"
    "TimeComponentPositionDay \<noteq> TimeComponentPositionFiveDays"
    by (simp_all add: TimeComponentPositionDay_def TimeComponentPositionYear_def
        TimeComponentPositionMonth_def TimeComponentPositionFiveDays_def)
  have idx: "index prefix (unat TimeComponentPositionFiveDays) = Inr (NewTimeComponent k 2)"
    "index prefix (unat TimeComponentPositionMonth) = Inr (NewTimeComponent m 1)"
    "index prefix (unat TimeComponentPositionYear) = Inr (NewTimeComponent y 0)"
    by (simp_all add: prefix index_def TimeComponentPositionFiveDays_def
        TimeComponentPositionMonth_def TimeComponentPositionYear_def)
  have other: "TimeComponentBounds prefix TimeComponentPositionDay = Inr (5 * (k - 1) + 1, 5 * k)"
    if "k \<noteq> 6"
    using that
    by (simp add: TimeComponentBounds_def pos idx ebind_def Quantity_NewTimeComponent)
  have six: "TimeComponentBounds prefix TimeComponentPositionDay =
      (if m \<in> {1, 3, 5, 7, 8, 10, 12} then Inr (26, 31)
       else if m \<in> {4, 6, 9, 11} then Inr (26, 30)
       else if m = 2 then
         (if y mod 4 = 0 \<and> (y mod 100 \<noteq> 0 \<or> y mod 400 = 0) then Inr (26, 29)
          else Inr (26, 28))
       else Inr (5 * (k - 1) + 1, 5 * k))"
    if "k = 6"
    unfolding TimeComponentBounds_def
    by (simp only: pos if_False idx ebind_def sum.case Quantity_NewTimeComponent that if_True simp_thms
        MaxDay_def MaxDayShortMonth_def MaxDayFebruary_def MaxDayFebruaryLeapYear_def)
  have leap: "(y mod 4 = 0 \<and> (y mod 100 \<noteq> 0 \<or> y mod 400 = 0)) \<longleftrightarrow>
      (unat y mod 4 = 0 \<and> (unat y mod 100 \<noteq> 0 \<or> unat y mod 400 = 0))"
  proof -
    have "(w = 0) = (unat w = 0)" for w :: uint16 by (simp add: unat_eq_zero)
    then show ?thesis by (simp add: unat_mod)
  qed
  from uint16_in_1_6 [OF k]
  consider "k = 1" | "k = 2" | "k = 3" | "k = 4" | "k = 5" | "k = 6" by blast
  then show ?thesis
  proof cases
    case 1 with other show ?thesis by (simp add: spec_day_bounds_def)
  next
    case 2 with other show ?thesis by (simp add: spec_day_bounds_def)
  next
    case 3 with other show ?thesis by (simp add: spec_day_bounds_def)
  next
    case 4 with other show ?thesis by (simp add: spec_day_bounds_def)
  next
    case 5 with other show ?thesis by (simp add: spec_day_bounds_def)
  next
    case 6
    note s = six [OF 6]
    from uint16_in_1_12 [OF m]
    consider "m = 1" | "m = 2" | "m = 3" | "m = 4" | "m = 5" | "m = 6" | "m = 7" | "m = 8"
      | "m = 9" | "m = 10" | "m = 11" | "m = 12" by blast
    then show ?thesis
    proof cases
      case 1 with s 6 show ?thesis by (simp add: spec_day_bounds_def)
    next
      case 2 with s 6 leap show ?thesis by (simp add: spec_day_bounds_def)
    next
      case 3 with s 6 show ?thesis by (simp add: spec_day_bounds_def)
    next
      case 4 with s 6 show ?thesis by (simp add: spec_day_bounds_def)
    next
      case 5 with s 6 show ?thesis by (simp add: spec_day_bounds_def)
    next
      case 6 with s \<open>k = 6\<close> show ?thesis by (simp add: spec_day_bounds_def)
    next
      case 7 with s 6 show ?thesis by (simp add: spec_day_bounds_def)
    next
      case 8 with s 6 show ?thesis by (simp add: spec_day_bounds_def)
    next
      case 9 with s 6 show ?thesis by (simp add: spec_day_bounds_def)
    next
      case 10 with s 6 show ?thesis by (simp add: spec_day_bounds_def)
    next
      case 11 with s 6 show ?thesis by (simp add: spec_day_bounds_def)
    next
      case 12 with s 6 show ?thesis by (simp add: spec_day_bounds_def)
    qed
  qed
qed

lemma unat_of_nat16: "x < 65536 \<Longrightarrow> unat (of_nat x :: uint16) = x"
  by (simp add: unat_of_nat)

lemma length_to_TimePath [simp]: "length (to_TimePath p) = length p"
  by (simp add: to_TimePath_def)

lemma to_TimePath_snoc:
  "to_TimePath (pre @ [x]) = to_TimePath pre @ [NewTimeComponent (of_nat x) (of_nat (length pre))]"
  by (simp add: to_TimePath_def enumerate_append_eq)

lemma to_TimePath_nth:
  "i < length p \<Longrightarrow> to_TimePath p ! i = NewTimeComponent (of_nat (p ! i)) (of_nat i)"
  by (simp add: to_TimePath_def nth_enumerate_eq)

lemma list_of_length_3: "length p = 3 \<Longrightarrow> \<exists>a b c. p = [a, b, c]"
  by (auto simp: numeral_3_eq_3 length_Suc_conv)

lemma list_of_length_5: "length p = 5 \<Longrightarrow> \<exists>a b c d e. p = [a, b, c, d, e]"
  by (auto simp: eval_nat_numeral length_Suc_conv)

lemma nat_in_1_4: "1 \<le> (n::nat) \<Longrightarrow> n \<le> 4 \<Longrightarrow> n \<in> {1, 2, 3, 4}"
  by simp arith

lemma TimeComponentBounds_time_bounds:
  assumes "within_bounds [] pre" and "length pre \<le> 5"
  shows "\<exists>lo hi. TimeComponentBounds (to_TimePath pre) (of_nat (length pre)) = Inr (lo, hi) \<and>
           unat lo = fst (time_bounds pre) \<and> unat hi = snd (time_bounds pre)"
proof -
  from assms(2) consider "length pre = 0" | "length pre = 1" | "length pre = 2"
    | "length pre = 3" | "length pre = 4" | "length pre = 5" by linarith
  then show ?thesis
  proof cases
    case 1
    then show ?thesis
      by (simp add: TimeComponentBounds_def time_bounds_def TimeComponentPositionYear_def
          MinYear_def MaxYear_def)
  next
    case 2
    then show ?thesis
      by (simp add: TimeComponentBounds_def time_bounds_def TimeComponentPositionYear_def
          TimeComponentPositionMonth_def MinMonth_def MaxMonth_def)
  next
    case 3
    then show ?thesis
      by (simp add: TimeComponentBounds_def time_bounds_def TimeComponentPositionYear_def
          TimeComponentPositionMonth_def TimeComponentPositionFiveDays_def
          MinFiveDays_def MaxFiveDays_def)
  next
    case 4
    then obtain Y m k where pre: "pre = [Y, m, k]" using list_of_length_3 by blast
    from assms(1) have Y: "Y \<le> 2050" and m: "1 \<le> m" "m \<le> 12" and k: "1 \<le> k" "k \<le> 6"
      unfolding pre by (simp_all add: time_bounds_def)
    have u: "unat (of_nat Y :: uint16) = Y" "unat (of_nat m :: uint16) = m"
      "unat (of_nat k :: uint16) = k"
      using Y m k by (simp_all add: unat_of_nat16)
    have w: "1 \<le> (of_nat m :: uint16)" "(of_nat m :: uint16) \<le> 12"
      "1 \<le> (of_nat k :: uint16)" "(of_nat k :: uint16) \<le> 6"
      using m k by (simp_all add: word_le_nat_alt u)
    have tp: "to_TimePath pre =
        [NewTimeComponent (of_nat Y) 0, NewTimeComponent (of_nat m) 1, NewTimeComponent (of_nat k) 2] @ []"
      by (simp add: pre to_TimePath_def)
    from TimeComponentBounds_day_prefix [OF w tp] obtain lo hi where
      "TimeComponentBounds (to_TimePath pre) TimeComponentPositionDay = Inr (lo, hi)"
      "(unat lo, unat hi) = spec_day_bounds Y m k"
      unfolding u by blast
    then show ?thesis
      by (simp add: pre time_bounds_def TimeComponentPositionDay_def prod_eq_iff)
  next
    case 5
    then show ?thesis
      by (simp add: TimeComponentBounds_def time_bounds_def TimeComponentPositionYear_def
          TimeComponentPositionMonth_def TimeComponentPositionFiveDays_def
          TimeComponentPositionDay_def TimeComponentPositionSixHours_def
          MinSixHours_def MaxSixHours_def)
  next
    case 6
    then obtain Y m k d sx where pre: "pre = [Y, m, k, d, sx]" using list_of_length_5 by blast
    from assms(1) have sx: "1 \<le> sx" "sx \<le> 4"
      unfolding pre by (simp_all add: time_bounds_def)
    have idx: "index (to_TimePath pre) 4 = Inr (NewTimeComponent (of_nat sx) 4)"
      by (simp add: pre index_def to_TimePath_def)
    have b: "TimeComponentBounds (to_TimePath pre) (of_nat (length pre)) =
        Inr (6 * ((of_nat sx :: uint16) - 1), 6 * of_nat sx - 1)"
      by (simp add: 6 TimeComponentBounds_def TimeComponentPositionYear_def
          TimeComponentPositionMonth_def TimeComponentPositionFiveDays_def
          TimeComponentPositionDay_def TimeComponentPositionSixHours_def
          TimeComponentPositionHour_def idx ebind_def Quantity_NewTimeComponent)
    from nat_in_1_4 [OF sx] consider "sx = 1" | "sx = 2" | "sx = 3" | "sx = 4" by blast
    then show ?thesis
    proof cases
      case 1 then show ?thesis unfolding b by (simp add: pre time_bounds_def)
    next
      case 2 then show ?thesis unfolding b by (simp add: pre time_bounds_def)
    next
      case 3 then show ?thesis unfolding b by (simp add: pre time_bounds_def)
    next
      case 4 then show ?thesis unfolding b by (simp add: pre time_bounds_def)
    qed
  qed
qed

lemma time_bounds_small:
  assumes "within_bounds [] pre" and "length pre \<le> 5"
  shows "snd (time_bounds pre) < 65536"
proof -
  from TimeComponentBounds_time_bounds [OF assms] obtain hi :: uint16 where
    "unat hi = snd (time_bounds pre)" by blast
  with unsigned_less [of hi, where ?'a = nat] show ?thesis by simp
qed

lemma ParseTimeFromPath_loop_within:
  "within_bounds [] pre \<Longrightarrow> within_bounds pre xs \<Longrightarrow> length pre + length xs \<le> 6 \<Longrightarrow>
   ParseTimeFromPath_loop (length pre) (map of_nat xs) (to_TimePath pre) =
     Inr (to_TimePath (pre @ xs))"
proof (induction xs arbitrary: pre)
  case Nil
  then show ?case by simp
next
  case (Cons x xs)
  from Cons.prems have len: "length pre \<le> 5" by simp
  from Cons.prems have x: "fst (time_bounds pre) \<le> x" "x \<le> snd (time_bounds pre)"
    and rest: "within_bounds (pre @ [x]) xs" by simp_all
  from TimeComponentBounds_time_bounds [OF Cons.prems(1) len] obtain lo hi where
    b: "TimeComponentBounds (to_TimePath pre) (of_nat (length pre)) = Inr (lo, hi)"
    and lo: "unat lo = fst (time_bounds pre)" and hi: "unat hi = snd (time_bounds pre)"
    by blast
  from x(2) time_bounds_small [OF Cons.prems(1) len] have "x < 65536" by simp
  then have ux: "unat (of_nat x :: uint16) = x" by (rule unat_of_nat16)
  have ok: "ValidateTimeComponent (to_TimePath pre) (of_nat x) (of_nat (length pre)) = Inr True"
    using x by (simp add: ValidateTimeComponent_def b ebind_def word_le_nat_alt ux lo hi)
  have pre': "within_bounds [] (pre @ [x])"
    using Cons.prems(1) x by (rule within_bounds_snoc)
  have "ParseTimeFromPath_loop (length pre) (map of_nat (x # xs)) (to_TimePath pre) =
      ParseTimeFromPath_loop (length (pre @ [x])) (map of_nat xs) (to_TimePath (pre @ [x]))"
    by (simp add: ok ebind_def to_TimePath_snoc)
  also have "\<dots> = Inr (to_TimePath ((pre @ [x]) @ xs))"
    using pre' rest Cons.prems(3) by (intro Cons.IH) simp_all
  finally show ?case by simp
qed

lemma within_bounds_small:
  "within_bounds [] pre \<Longrightarrow> within_bounds pre xs \<Longrightarrow> length pre + length xs \<le> 6 \<Longrightarrow>
   \<forall>x\<in>set xs. x < 65536"
proof (induction xs arbitrary: pre)
  case Nil
  then show ?case by simp
next
  case (Cons x xs)
  from Cons.prems have len: "length pre \<le> 5" by simp
  from Cons.prems have x: "fst (time_bounds pre) \<le> x" "x \<le> snd (time_bounds pre)"
    and rest: "within_bounds (pre @ [x]) xs" by simp_all
  from x(2) time_bounds_small [OF Cons.prems(1) len] have "x < 65536" by simp
  moreover have "length (pre @ [x]) + length xs \<le> 6" using Cons.prems(3) by simp
  with within_bounds_snoc [OF Cons.prems(1) x] rest have "\<forall>x\<in>set xs. x < 65536"
    by (rule Cons.IH)
  ultimately show ?case by simp
qed

lemma quantities_enumerate:
  "\<forall>q\<in>set qs. q < 65536 \<Longrightarrow>
   quantities (map (\<lambda>(i, q). NewTimeComponent (of_nat q) (of_nat i)) (enumerate n qs)) = Inr qs"
  by (induction qs arbitrary: n) (simp_all add: ebind_def Quantity_NewTimeComponent unat_of_nat16)

lemma quantities_to_TimePath:
  "within_bounds [] p \<Longrightarrow> length p \<le> 6 \<Longrightarrow> quantities (to_TimePath p) = Inr p"
  unfolding to_TimePath_def
  using within_bounds_small [of "[]" p] by (intro quantities_enumerate) simp

lemma uint16_div_of_nat:
  assumes "a < 65536" and "b < 65536"
  shows "(of_nat a :: uint16) div of_nat b = of_nat (a div b)"
proof -
  from assms div_le_dividend [of a b] have "a div b < 65536" by linarith
  with assms have "unat ((of_nat a :: uint16) div of_nat b) = unat (of_nat (a div b) :: uint16)"
    by (simp add: unat_div unat_of_nat16)
  then show ?thesis by (simp only: word_unat_eq_iff)
qed

lemma ParseTime_supported:
  assumes "supported t"
  shows "ParseTime t = Inr (to_TimePath (path_of t))"
proof -
  let ?d = "ts_day t" and ?h = "ts_hour t"
  from assms have y: "0 \<le> ts_year t" and d: "1 \<le> ?d" "?d \<le> days_in_month (ts_year t) (ts_month t)"
    and h: "?h \<le> 23"
    by (simp_all add: supported_def valid_timestamp_def)
  from d days_in_month_le [of "ts_year t" "ts_month t"] have d31: "?d \<le> 31" by simp
  define e where "e = (?d - 1) div 5 + 1"
  have e: "e \<le> 7" using d31 div_le_mono [of "?d - 1" 30 5] by (simp add: e_def)
  have p0: "(of_int (ts_year t) :: uint16) = of_nat (nat (ts_year t))"
    using y by simp
  have "(of_nat ?d :: uint16) - 1 = of_nat (?d - 1)" using d by simp
  then have "((of_nat ?d :: uint16) - 1) div 5 = of_nat ((?d - 1) div 5)"
    using uint16_div_of_nat [of "?d - 1" 5] d31 by simp
  then have p2: "((of_nat ?d :: uint16) - 1) div 5 + 1 = of_nat e"
    by (simp add: e_def)
  have e7: "(of_nat e :: uint16) = 7 \<longleftrightarrow> e = 7"
    using e by (simp add: word_unat_eq_iff unat_of_nat16)
  have p2': "(if (of_nat e :: uint16) = 7 then 6 else of_nat e) = of_nat (min 6 e)"
  proof (cases "e = 7")
    case True
    then show ?thesis by simp
  next
    case False
    with e have "e \<le> 6" by simp
    with False show ?thesis by (simp add: e7 min_def)
  qed
  have p4: "(of_nat ?h :: uint16) div 6 + 1 = of_nat (?h div 6 + 1)"
    using uint16_div_of_nat [of ?h 6] h by simp
  have "ParseTime t = ParseTimeFromPath (map of_nat (path_of t))"
    unfolding ParseTime_def Let_def p0 p2 p2' p4 by (simp add: path_of_def e_def)
  also have "\<dots> = ParseTimeFromPath_loop (length ([] :: nat list)) (map of_nat (path_of t)) (to_TimePath [])"
    by (simp add: ParseTimeFromPath_def MaxTimeLength_def to_TimePath_def)
  also have "\<dots> = Inr (to_TimePath ([] @ path_of t))"
    using path_of_within [OF assms] by (intro ParseTimeFromPath_loop_within) simp_all
  finally show ?thesis by simp
qed

lemma ascend_within:
  "within_bounds pre xs \<Longrightarrow> q \<in> set (ascend pre xs) \<Longrightarrow>
   within_bounds pre q \<and> length q \<le> length xs"
proof (induction xs arbitrary: pre q)
  case Nil
  then show ?case by simp
next
  case (Cons x xs)
  show ?case
  proof (cases "at_start pre (x # xs)")
    case True
    with Cons.prems(2) show ?thesis by (simp del: at_start.simps)
  next
    case False
    with Cons.prems(2) consider q' where "q = x # q'" "q' \<in> set (ascend (pre @ [x]) xs)"
      | c where "q = [c]" "x < c" "c \<le> snd (time_bounds pre)"
      by (auto simp del: at_start.simps)
    then show ?thesis
    proof cases
      case 1
      with Cons.IH [of "pre @ [x]" q'] Cons.prems(1) show ?thesis by simp
    next
      case 2
      with Cons.prems(1) show ?thesis by simp
    qed
  qed
qed

lemma descend_within:
  "within_bounds pre ys \<Longrightarrow> q \<in> set (descend pre ys) \<Longrightarrow>
   within_bounds pre q \<and> length q \<le> length ys"
proof (induction ys arbitrary: pre q)
  case Nil
  then show ?case by simp
next
  case (Cons y ys)
  show ?case
  proof (cases "at_end pre (y # ys)")
    case True
    with Cons.prems(2) show ?thesis by (simp del: at_end.simps)
  next
    case False
    with Cons.prems(2) consider q' where "q = y # q'" "q' \<in> set (descend (pre @ [y]) ys)"
      | c where "q = [c]" "fst (time_bounds pre) \<le> c" "c < y"
      by (auto simp del: at_end.simps)
    then show ?thesis
    proof cases
      case 1
      with Cons.IH [of "pre @ [y]" q'] Cons.prems(1) show ?thesis by simp
    next
      case 2
      with Cons.prems(1) show ?thesis by simp
    qed
  qed
qed

lemma range_under_within:
  "within_bounds pre xs \<Longrightarrow> within_bounds pre ys \<Longrightarrow> length ys = length xs \<Longrightarrow>
   q \<in> set (range_under pre xs ys) \<Longrightarrow> within_bounds pre q \<and> length q \<le> length xs"
proof (induction xs arbitrary: pre ys q)
  case Nil
  then show ?case by simp
next
  case (Cons x xs)
  from Cons.prems(3) obtain y ys' where ys: "ys = y # ys'" and len: "length ys' = length xs"
    by (cases ys) simp_all
  show ?case
  proof (cases "at_start pre (x # xs) \<and> at_end pre (y # ys')")
    case True
    with Cons.prems(4) ys show ?thesis by (simp del: at_start.simps at_end.simps)
  next
    case False
    with Cons.prems(4) ys consider
      q' where "x = y" "q = x # q'" "q' \<in> set (range_under (pre @ [x]) xs ys')"
      | q' where "q = x # q'" "q' \<in> set (ascend (pre @ [x]) xs)"
      | c where "q = [c]" "x < c" "c < y"
      | q' where "q = y # q'" "q' \<in> set (descend (pre @ [y]) ys')"
      by (auto simp del: at_start.simps at_end.simps split: if_splits)
    then show ?thesis
    proof cases
      case 1
      with Cons.IH [of "pre @ [x]" ys' q'] Cons.prems(1,2) ys len show ?thesis by simp
    next
      case 2
      with ascend_within [of "pre @ [x]" xs q'] Cons.prems(1) show ?thesis by simp
    next
      case 3
      with Cons.prems(1,2) ys show ?thesis by simp
    next
      case 4
      with descend_within [of "pre @ [y]" ys' q'] Cons.prems(2) ys len show ?thesis by simp
    qed
  qed
qed

lemma take_to_TimePath: "take n (to_TimePath p) = to_TimePath (take n p)"
  by (rule nth_equalityI) (simp_all add: to_TimePath_nth)

lemma within_bounds_take: "within_bounds pre p \<Longrightarrow> within_bounds pre (take n p)"
  using within_bounds_append [of pre "take n p" "drop n p"] by simp

lemma to_TimePath_inject:
  assumes "within_bounds [] a" and "length a \<le> 6" and "within_bounds [] b" and "length b \<le> 6"
    and "to_TimePath a = to_TimePath b"
  shows "a = b"
proof -
  have "Inr a = quantities (to_TimePath a)"
    using assms(1,2) by (simp add: quantities_to_TimePath)
  also have "\<dots> = Inr b"
    using assms(3,4) by (simp add: assms(5) quantities_to_TimePath)
  finally show ?thesis by simp
qed

lemma prefix_to_TimePath:
  assumes "within_bounds [] q" and "length q \<le> 6" and "within_bounds [] p" and "length p \<le> 6"
  shows "take (length (to_TimePath q)) (to_TimePath p) = to_TimePath q \<longleftrightarrow> is_prefix q p"
proof
  assume "take (length (to_TimePath q)) (to_TimePath p) = to_TimePath q"
  then have "to_TimePath (take (length q) p) = to_TimePath q"
    by (simp add: take_to_TimePath)
  moreover have "within_bounds [] (take (length q) p)"
    using assms(3) by (rule within_bounds_take)
  ultimately have "take (length q) p = q"
    using assms by (intro to_TimePath_inject) simp_all
  then show "is_prefix q p" by (simp add: is_prefix_def)
next
  assume "is_prefix q p"
  then have "take (length q) p = q" by (simp add: is_prefix_def)
  then show "take (length (to_TimePath q)) (to_TimePath p) = to_TimePath q"
    by (simp add: take_to_TimePath)
qed

subsection \<open>TimeRange on the timestamps the hierarchy holds\<close>

lemma TimeRange_supported:
  assumes "supported s" and "supported e" and "hour_le s e"
  shows "TimeRange s e = Inr (map to_TimePath (range_under [] (path_of s) (path_of e)))"
proof -
  from assms(1,2) have y: "0 \<le> ts_year s" "0 \<le> ts_year e" by (simp_all add: supported_def)
  from assms(3) have "path_le (path_of s) (path_of e)"
    using hour_le_path_le [OF y] by simp
  then show ?thesis
    unfolding TimeRange_def
    by (simp add: ParseTime_supported assms(1,2) ebind_def quantities_to_TimePath path_of_within)
qed

lemma covers_time_to_TimePath:
  assumes "supported t" and "\<forall>q\<in>set paths. within_bounds [] q \<and> length q \<le> 6"
  shows "covers_time (map to_TimePath paths) t \<longleftrightarrow> covers paths (path_of t)"
proof -
  have "take (length (to_TimePath q)) (to_TimePath (path_of t)) = to_TimePath q \<longleftrightarrow>
      is_prefix q (path_of t)" if "q \<in> set paths" for q
    using that assms(2) path_of_within [OF assms(1)] by (intro prefix_to_TimePath) simp_all
  then show ?thesis
    by (simp add: covers_time_def ParseTime_supported [OF assms(1)] covers_def list_ex_iff)
qed

lemma covers_time_parent:
  assumes "supported t" and "is_prefix (butlast q) (path_of t)"
  shows "covers_time [butlast (to_TimePath q)] t"
proof -
  have "butlast (to_TimePath q) = to_TimePath (butlast q)"
    by (simp add: butlast_conv_take take_to_TimePath)
  moreover from assms(2) have "take (length (butlast q)) (path_of t) = butlast q"
    by (simp add: is_prefix_def)
  then have "take (length (to_TimePath (butlast q))) (to_TimePath (path_of t)) =
      to_TimePath (butlast q)"
    by (simp add: take_to_TimePath)
  ultimately show ?thesis
    by (simp add: covers_time_def ParseTime_supported [OF assms(1)])
qed

lemma hour_le_refl: "hour_le t t"
  by (simp add: hour_le_def)

lemma hour_le_antisym: "hour_le s e \<Longrightarrow> hour_le e s \<Longrightarrow> path_of s = path_of e"
  by (auto simp: hour_le_def path_of_def)

text \<open>
  The expected results of \<^verbatim>\<open>TestTimeRangeFebruary\<close>, \<^verbatim>\<open>TestTimeRange\<close> and
  \<^verbatim>\<open>TestTimeRangeTwoDays\<close> of the repository.
\<close>

lemma TimeRange_February:
  "TimeRange \<lparr>ts_year = 2016, ts_month = 2, ts_day = 28, ts_hour = 23\<rparr>
             \<lparr>ts_year = 2016, ts_month = 3, ts_day = 2, ts_hour = 0\<rparr> =
     Inr (map to_TimePath
       [[2016, 2, 6, 28, 4, 23], [2016, 2, 6, 29], [2016, 3, 1, 1], [2016, 3, 1, 2, 1, 0]])"
proof -
  let ?s = "\<lparr>ts_year = 2016, ts_month = 2, ts_day = 28, ts_hour = 23\<rparr>"
  let ?e = "\<lparr>ts_year = 2016, ts_month = 3, ts_day = 2, ts_hour = 0\<rparr>"
  have "supported ?s" "supported ?e" "hour_le ?s ?e"
    by (simp_all add: supported_def valid_timestamp_def days_in_month_def leap_year_def
        hour_le_def)
  then have "TimeRange ?s ?e = Inr (map to_TimePath (range_under [] (path_of ?s) (path_of ?e)))"
    by (rule TimeRange_supported)
  moreover have "range_under [] (path_of ?s) (path_of ?e) =
      [[2016, 2, 6, 28, 4, 23], [2016, 2, 6, 29], [2016, 3, 1, 1], [2016, 3, 1, 2, 1, 0]]"
    by (simp add: path_of_def time_bounds_def spec_day_bounds_def upt_rec)
  ultimately show ?thesis by simp
qed

lemma TimeRange_TestTimeRange:
  "TimeRange \<lparr>ts_year = 2017, ts_month = 12, ts_day = 28, ts_hour = 21\<rparr>
             \<lparr>ts_year = 2019, ts_month = 3, ts_day = 1, ts_hour = 6\<rparr> =
     Inr (map to_TimePath
       [[2017, 12, 6, 28, 4, 21], [2017, 12, 6, 28, 4, 22], [2017, 12, 6, 28, 4, 23],
        [2017, 12, 6, 29], [2017, 12, 6, 30], [2017, 12, 6, 31], [2018], [2019, 1], [2019, 2],
        [2019, 3, 1, 1, 1], [2019, 3, 1, 1, 2, 6]])"
proof -
  let ?s = "\<lparr>ts_year = 2017, ts_month = 12, ts_day = 28, ts_hour = 21\<rparr>"
  let ?e = "\<lparr>ts_year = 2019, ts_month = 3, ts_day = 1, ts_hour = 6\<rparr>"
  have "supported ?s" "supported ?e" "hour_le ?s ?e"
    by (simp_all add: supported_def valid_timestamp_def days_in_month_def leap_year_def
        hour_le_def)
  then have "TimeRange ?s ?e = Inr (map to_TimePath (range_under [] (path_of ?s) (path_of ?e)))"
    by (rule TimeRange_supported)
  moreover have "range_under [] (path_of ?s) (path_of ?e) =
      [[2017, 12, 6, 28, 4, 21], [2017, 12, 6, 28, 4, 22], [2017, 12, 6, 28, 4, 23],
        [2017, 12, 6, 29], [2017, 12, 6, 30], [2017, 12, 6, 31], [2018], [2019, 1], [2019, 2],
        [2019, 3, 1, 1, 1], [2019, 3, 1, 1, 2, 6]]"
    by (simp add: path_of_def time_bounds_def spec_day_bounds_def upt_rec)
  ultimately show ?thesis by simp
qed

lemma TimeRange_TwoDays:
  "TimeRange \<lparr>ts_year = 2017, ts_month = 10, ts_day = 10, ts_hour = 0\<rparr>
             \<lparr>ts_year = 2017, ts_month = 10, ts_day = 11, ts_hour = 23\<rparr> =
     Inr (map to_TimePath [[2017, 10, 2, 10], [2017, 10, 3, 11]])"
proof -
  let ?s = "\<lparr>ts_year = 2017, ts_month = 10, ts_day = 10, ts_hour = 0\<rparr>"
  let ?e = "\<lparr>ts_year = 2017, ts_month = 10, ts_day = 11, ts_hour = 23\<rparr>"
  have "supported ?s" "supported ?e" "hour_le ?s ?e"
    by (simp_all add: supported_def valid_timestamp_def days_in_month_def leap_year_def
        hour_le_def)
  then have "TimeRange ?s ?e = Inr (map to_TimePath (range_under [] (path_of ?s) (path_of ?e)))"
    by (rule TimeRange_supported)
  moreover have "range_under [] (path_of ?s) (path_of ?e) = [[2017, 10, 2, 10], [2017, 10, 3, 11]]"
    by (simp add: path_of_def time_bounds_def spec_day_bounds_def upt_rec)
  ultimately show ?thesis by simp
qed

text \<open>
  C4, as stated, fails on the code.  \<^verbatim>\<open>ParseTime\<close> validates the components of the
  timestamp through \<^verbatim>\<open>ParseTimeFromPath\<close>, which holds the years 2015 to 2050 only:
  for a timestamp of the year 2014 it returns an error, and no sequence of time paths
  is returned for the interval from that hour to itself.
\<close>

theorem TimeRange_year_counterexample:
  "valid_timestamp \<lparr>ts_year = 2014, ts_month = 6, ts_day = 15, ts_hour = 12\<rparr> \<and>
   hour_le \<lparr>ts_year = 2014, ts_month = 6, ts_day = 15, ts_hour = 12\<rparr>
           \<lparr>ts_year = 2014, ts_month = 6, ts_day = 15, ts_hour = 12\<rparr> \<and>
   ParseTime \<lparr>ts_year = 2014, ts_month = 6, ts_day = 15, ts_hour = 12\<rparr> =
     Inl (ErrInvalidTimeComponent 2014 0) \<and>
   TimeRange \<lparr>ts_year = 2014, ts_month = 6, ts_day = 15, ts_hour = 12\<rparr>
             \<lparr>ts_year = 2014, ts_month = 6, ts_day = 15, ts_hour = 12\<rparr> =
     Inl (ErrInvalidTimeComponent 2014 0)"
  by (simp add: valid_timestamp_def days_in_month_def hour_le_def TimeRange_def ParseTime_def
      ParseTimeFromPath_def MaxTimeLength_def ValidateTimeComponent_def TimeComponentBounds_def
      TimeComponentPositionYear_def MinYear_def MaxYear_def ebind_def)

text \<open>
  C4, amended: for every pair of timestamps \<open>s\<close> and \<open>e\<close> with \<open>s \<le> e\<close> whose years lie
  in 2015..2050, \<^verbatim>\<open>TimeRange(s, e)\<close> returns a non-empty sequence of time paths; an hour
  (of the years 2015..2050) is covered by one of the paths, which then is a prefix of
  the hour's time path, exactly when it lies in the closed interval from the hour of
  \<open>s\<close> to the hour of \<open>e\<close>; and the sequence is minimal: the parent prefix of every
  path of the sequence covers an hour outside the interval.  When \<open>s\<close> and \<open>e\<close> are in
  the same hour, the result is exactly one path, the six-component time path of \<open>s\<close>.
\<close>

theorem TimeRange_minimal_cover:
  assumes "supported s" and "supported e" and "hour_le s e"
  shows "\<exists>tps. TimeRange s e = Inr tps \<and> tps \<noteq> [] \<and>
           (\<forall>t. supported t \<longrightarrow> covers_time tps t = (hour_le s t \<and> hour_le t e)) \<and>
           (\<forall>q\<in>set tps. q \<noteq> [] \<longrightarrow>
              (\<exists>t. supported t \<and> covers_time [butlast q] t \<and> \<not> (hour_le s t \<and> hour_le t e))) \<and>
           (hour_le e s \<longrightarrow> (\<exists>tp. tps = [tp] \<and> length tp = 6 \<and> ParseTime s = Inr tp))"
proof -
  define paths where "paths = range_under [] (path_of s) (path_of e)"
  note ws = path_of_within [OF assms(1)] and we = path_of_within [OF assms(2)]
  from assms(1,2) have y: "0 \<le> ts_year s" "0 \<le> ts_year e" by (simp_all add: supported_def)
  have le: "path_le (path_of s) (path_of e)"
    using assms(3) hour_le_path_le [OF y] by simp
  have result: "TimeRange s e = Inr (map to_TimePath paths)"
    unfolding paths_def using assms by (rule TimeRange_supported)
  have valid: "\<forall>q\<in>set paths. within_bounds [] q \<and> length q \<le> 6"
    unfolding paths_def using range_under_within [OF ws we] by fastforce
  have cover: "covers_time (map to_TimePath paths) t = (hour_le s t \<and> hour_le t e)"
    if t: "supported t" for t
  proof -
    from t have yt: "0 \<le> ts_year t" by (simp add: supported_def)
    have "covers paths (path_of t) \<longleftrightarrow>
        path_le (path_of s) (path_of t) \<and> path_le (path_of t) (path_of e)"
      unfolding paths_def using path_of_within [OF t] le by (intro range_under_covers) simp_all
    then show ?thesis
      using covers_time_to_TimePath [OF t valid] hour_le_path_le [OF y(1) yt]
        hour_le_path_le [OF yt y(2)] by simp
  qed
  have nonempty: "map to_TimePath paths \<noteq> []"
  proof
    assume "map to_TimePath paths = []"
    then have "\<not> covers_time (map to_TimePath paths) s" by (simp add: covers_time_def split: sum.splits)
    with cover [OF assms(1)] assms(3) hour_le_refl [of s] show False by simp
  qed
  have minimal: "\<exists>t. supported t \<and> covers_time [butlast q] t \<and> \<not> (hour_le s t \<and> hour_le t e)"
    if q: "q \<in> set (map to_TimePath paths)" "q \<noteq> []" for q
  proof -
    from q(1) obtain p where p0: "p \<in> set paths" "q = to_TimePath p" by auto
    with q(2) have "p \<noteq> []" by (auto simp: to_TimePath_def)
    note p = p0 this
    from range_under_minimal [of "[]" "path_of s" "path_of e" p] p(1,3) ws we
    obtain zs where zs: "within_bounds [] zs" "length zs = 6" "is_prefix (butlast p) zs"
      "\<not> (path_le (path_of s) zs \<and> path_le zs (path_of e))"
      unfolding paths_def by auto
    from within_bounds_timestamp [OF zs(1,2)] obtain t where t: "supported t" "path_of t = zs"
      by blast
    from t(1) have yt: "0 \<le> ts_year t" by (simp add: supported_def)
    from zs(4) have "\<not> (hour_le s t \<and> hour_le t e)"
      using hour_le_path_le [OF y(1) yt] hour_le_path_le [OF yt y(2)] t(2) by simp
    moreover have "covers_time [butlast q] t"
      unfolding p(2) using t(1) zs(3) by (intro covers_time_parent) (simp_all add: t(2))
    ultimately show ?thesis using t(1) by blast
  qed
  have single: "\<exists>tp. map to_TimePath paths = [tp] \<and> length tp = 6 \<and> ParseTime s = Inr tp"
    if "hour_le e s"
  proof -
    from hour_le_antisym [OF assms(3) that] have "path_of e = path_of s" by simp
    then have "paths = [path_of s]"
      unfolding paths_def using range_under_single [of "[]" "path_of s"] ws by simp
    then show ?thesis by (simp add: ParseTime_supported [OF assms(1)])
  qed
  show ?thesis
  proof (intro exI [of _ "map to_TimePath paths"] conjI allI impI ballI)
    show "TimeRange s e = Inr (map to_TimePath paths)" by (rule result)
    show "map to_TimePath paths \<noteq> []" by (rule nonempty)
    show "covers_time (map to_TimePath paths) t = (hour_le s t \<and> hour_le t e)"
      if "supported t" for t using that by (rule cover)
    show "\<exists>t. supported t \<and> covers_time [butlast q] t \<and> \<not> (hour_le s t \<and> hour_le t e)"
      if "q \<in> set (map to_TimePath paths)" "q \<noteq> []" for q using that by (rule minimal)
    show "\<exists>tp. map to_TimePath paths = [tp] \<and> length tp = 6 \<and> ParseTime s = Inr tp"
      if "hour_le e s" using that by (rule single)
  qed
qed

theorem TimeRange_minimal_cover_witness:
  "supported \<lparr>ts_year = 2016, ts_month = 2, ts_day = 28, ts_hour = 23\<rparr> \<and>
   supported \<lparr>ts_year = 2016, ts_month = 3, ts_day = 2, ts_hour = 0\<rparr> \<and>
   hour_le \<lparr>ts_year = 2016, ts_month = 2, ts_day = 28, ts_hour = 23\<rparr>
           \<lparr>ts_year = 2016, ts_month = 3, ts_day = 2, ts_hour = 0\<rparr> \<and>
   (\<exists>tps. TimeRange \<lparr>ts_year = 2016, ts_month = 2, ts_day = 28, ts_hour = 23\<rparr>
                     \<lparr>ts_year = 2016, ts_month = 3, ts_day = 2, ts_hour = 0\<rparr> = Inr tps \<and>
          tps \<noteq> [] \<and>
          covers_time tps \<lparr>ts_year = 2016, ts_month = 2, ts_day = 29, ts_hour = 7\<rparr> \<and>
          \<not> covers_time tps \<lparr>ts_year = 2016, ts_month = 3, ts_day = 2, ts_hour = 1\<rparr>)"
proof -
  let ?s = "\<lparr>ts_year = 2016, ts_month = 2, ts_day = 28, ts_hour = 23\<rparr>"
  let ?e = "\<lparr>ts_year = 2016, ts_month = 3, ts_day = 2, ts_hour = 0\<rparr>"
  let ?in = "\<lparr>ts_year = 2016, ts_month = 2, ts_day = 29, ts_hour = 7\<rparr>"
  let ?out = "\<lparr>ts_year = 2016, ts_month = 3, ts_day = 2, ts_hour = 1\<rparr>"
  have s: "supported ?s" and e: "supported ?e" and i: "supported ?in" and out: "supported ?out"
    by (simp_all add: supported_def valid_timestamp_def days_in_month_def leap_year_def)
  have le: "hour_le ?s ?e" by (simp add: hour_le_def)
  have pos: "hour_le ?s ?in \<and> hour_le ?in ?e" "\<not> (hour_le ?s ?out \<and> hour_le ?out ?e)"
    by (simp_all add: hour_le_def)
  from TimeRange_minimal_cover [OF s e le] obtain tps where
    "TimeRange ?s ?e = Inr tps" "tps \<noteq> []"
    "\<forall>t. supported t \<longrightarrow> covers_time tps t = (hour_le ?s t \<and> hour_le t ?e)"
    by blast
  with i out pos have "TimeRange ?s ?e = Inr tps \<and> tps \<noteq> [] \<and> covers_time tps ?in \<and>
      \<not> covers_time tps ?out" by blast
  with s e le show ?thesis by blast
qed

end
